theory Spec2Isabelle
  imports Complex_Main "HOL-Library.Multiset"
begin

section \<open>JavaScript values used by download.mjs\<close>

text \<open>
  Strings are lists of 8-bit characters, read as the code points U+0000 to U+00FF.
  A field of the argument object holds \<open>null\<close> (its initial value), \<open>undefined\<close>
  (the \<open>value\<close> of an exhausted iterator) or a string.
\<close>

datatype jsval = Undefined | Null | Str string

fun truthy :: "jsval \<Rightarrow> bool" where
  "truthy Undefined = False"
| "truthy Null = False"
| "truthy (Str s) = (s \<noteq> [])"

text \<open>
  A JavaScript number: NaN, a finite value (kept exact, as a rational) or an infinity.
  The counters of the program (\<open>active\<close>, \<open>attempt\<close>) are integers and are
  compared with configured numbers through \<open>of_count\<close>.
\<close>

datatype jsnum = NaN | Fin rat | PosInf | NegInf

fun js_lt :: "jsnum \<Rightarrow> jsnum \<Rightarrow> bool" where
  "js_lt (Fin x) (Fin y) = (x < y)"
| "js_lt (Fin x) PosInf = True"
| "js_lt NegInf (Fin y) = True"
| "js_lt NegInf PosInf = True"
| "js_lt _ _ = False"

definition js_le :: "jsnum \<Rightarrow> jsnum \<Rightarrow> bool" where
  "js_le a b = (js_lt a b \<or> (a = b \<and> a \<noteq> NaN))"

definition js_ge :: "jsnum \<Rightarrow> jsnum \<Rightarrow> bool" where
  "js_ge a b = js_le b a"

definition of_count :: "int \<Rightarrow> jsnum" where
  "of_count n = Fin (of_int n)"

text \<open>
  \<open>Number(v)\<close>: NaN on \<open>undefined\<close>, 0 on \<open>null\<close>; the conversion of a string is
  the language's StringToNumber, taken as the parameter \<open>conv\<close>.
\<close>

definition Number_js :: "(string \<Rightarrow> jsnum) \<Rightarrow> jsval \<Rightarrow> jsnum" where
  "Number_js conv v = (case v of Undefined \<Rightarrow> NaN | Null \<Rightarrow> Fin 0 | Str s \<Rightarrow> conv s)"

text \<open>
  A conversion for the examples: it agrees with StringToNumber on plain decimal integer
  literals with an optional minus sign, and on text with no numeric reading such as
  \<open>abc\<close> (NaN). Every theorem below holds for any conversion.
\<close>

definition digit_val :: "char \<Rightarrow> nat option" where
  "digit_val c = map_of (zip ''0123456789'' [0, 1, 2, 3, 4, 5, 6, 7, 8, 9]) c"

fun digits_val :: "nat \<Rightarrow> string \<Rightarrow> nat option" where
  "digits_val acc [] = Some acc"
| "digits_val acc (c # cs) =
     (case digit_val c of None \<Rightarrow> None | Some d \<Rightarrow> digits_val (10 * acc + d) cs)"

definition decimal :: "string \<Rightarrow> jsnum" where
  "decimal s =
     (case s of
        [] \<Rightarrow> Fin 0
      | c # cs \<Rightarrow>
          (if c = CHR ''-'' \<and> cs \<noteq> [] then
             (case digits_val 0 cs of None \<Rightarrow> NaN | Some n \<Rightarrow> Fin (- of_nat n))
           else (case digits_val 0 (c # cs) of None \<Rightarrow> NaN | Some n \<Rightarrow> Fin (of_nat n))))"

section \<open>The argument object of parseArgs\<close>

definition DEFAULT_OUTPUT_TEMPLATE :: string where
  "DEFAULT_OUTPUT_TEMPLATE = ''%(uploader)s/%(title).200Bs-%(id)s.%(ext)s''"

definition DEFAULT_CONCURRENCY :: jsnum where
  "DEFAULT_CONCURRENCY = Fin 2"

definition DEFAULT_SUB_LANG :: string where
  "DEFAULT_SUB_LANG = ''en''"

definition MAX_RETRIES :: jsnum where
  "MAX_RETRIES = Fin 2"

definition DEFAULT_FORMAT_FALLBACK :: string where
  "DEFAULT_FORMAT_FALLBACK = ''bestvideo[ext=mp4][height<=1080]+bestaudio[ext=m4a]/best[ext=mp4]''"

record args =
  urls :: "string list"
  format :: jsval
  formatProvided :: bool
  audioOnly :: bool
  audioFormat :: jsval
  outDir :: jsval
  outTemplate :: jsval
  playlist :: bool
  rateLimit :: jsval
  retries :: jsnum
  subs :: bool
  subsLang :: jsval
  subsEmbed :: bool
  fromFile :: jsval
  cookies :: jsval
  proxy :: jsval
  concurrent :: jsnum
  noMtime :: bool
  geoBypass :: bool
  extractorArgs :: jsval
  geoBypassCountry :: jsval
  verbose :: bool
  update :: bool
  noPrompt :: bool

definition initial_args :: args where
  "initial_args =
     \<lparr> urls = [], format = Null, formatProvided = False, audioOnly = False,
       audioFormat = Str ''m4a'', outDir = Str ''./downloads'',
       outTemplate = Str DEFAULT_OUTPUT_TEMPLATE, playlist = True, rateLimit = Null,
       retries = MAX_RETRIES, subs = False, subsLang = Str DEFAULT_SUB_LANG,
       subsEmbed = True, fromFile = Null, cookies = Null, proxy = Null,
       concurrent = DEFAULT_CONCURRENCY, noMtime = True, geoBypass = True,
       extractorArgs = Null, geoBypassCountry = Null, verbose = False, update = False,
       noPrompt = False \<rparr>"

section \<open>parseArgs\<close>

text \<open>
  How the process stops before or outside a job: \<open>process.exit(code)\<close> after a message
  on stderr; an exception that reaches the handler of \<open>run().catch\<close>, which exits
  with status 1; or the question of \<open>chooseFormatInteractive\<close> left without an answer
  at the end of the input: the promise of \<open>askQuestion\<close> never settles, \<open>run\<close> never
  resumes, nothing is left for the event loop and the process ends with status 0.
\<close>

datatype message = UnknownOption string | Usage

datatype stop = ProcessExit nat message | Thrown | Unanswered

fun exit_status :: "stop \<Rightarrow> nat" where
  "exit_status (ProcessExit code m) = code"
| "exit_status Thrown = 1"
| "exit_status Unanswered = 0"

text \<open>\<open>it.next().value\<close>: the next argument, or \<open>undefined\<close> once the iterator is exhausted.\<close>

fun next_value :: "string list \<Rightarrow> jsval \<times> string list" where
  "next_value [] = (Undefined, [])"
| "next_value (x # xs) = (Str x, xs)"

definition startsWith_dash :: "string \<Rightarrow> bool" where
  "startsWith_dash v = (case v of [] \<Rightarrow> False | c # cs \<Rightarrow> c = CHR ''-'')"

text \<open>The body of the \<open>switch\<close>: the updated object and the arguments still to be read.\<close>

definition parse_case ::
  "(string \<Rightarrow> jsnum) \<Rightarrow> string \<Rightarrow> string list \<Rightarrow> args \<Rightarrow> stop + args \<times> string list" where
  "parse_case conv v rest a =
     (if v = ''--format'' then
        Inr (a\<lparr>format := fst (next_value rest), formatProvided := True\<rparr>, snd (next_value rest))
      else if v = ''--audio'' then Inr (a\<lparr>audioOnly := True\<rparr>, rest)
      else if v = ''--audioFormat'' then
        Inr (a\<lparr>audioFormat := fst (next_value rest)\<rparr>, snd (next_value rest))
      else if v = ''--outDir'' then
        Inr (a\<lparr>outDir := fst (next_value rest)\<rparr>, snd (next_value rest))
      else if v = ''--outTemplate'' then
        Inr (a\<lparr>outTemplate := fst (next_value rest)\<rparr>, snd (next_value rest))
      else if v = ''--noPlaylist'' then Inr (a\<lparr>playlist := False\<rparr>, rest)
      else if v = ''--rateLimit'' then
        Inr (a\<lparr>rateLimit := fst (next_value rest)\<rparr>, snd (next_value rest))
      else if v = ''--retries'' then
        Inr (a\<lparr>retries := Number_js conv (fst (next_value rest))\<rparr>, snd (next_value rest))
      else if v = ''--subs'' then Inr (a\<lparr>subs := True\<rparr>, rest)
      else if v = ''--lang'' then
        Inr (a\<lparr>subsLang := fst (next_value rest)\<rparr>, snd (next_value rest))
      else if v = ''--noEmbedSubs'' then Inr (a\<lparr>subsEmbed := False\<rparr>, rest)
      else if v = ''--fromFile'' then
        Inr (a\<lparr>fromFile := fst (next_value rest)\<rparr>, snd (next_value rest))
      else if v = ''--cookies'' then
        Inr (a\<lparr>cookies := fst (next_value rest)\<rparr>, snd (next_value rest))
      else if v = ''--proxy'' then
        Inr (a\<lparr>proxy := fst (next_value rest)\<rparr>, snd (next_value rest))
      else if v = ''--concurrent'' then
        Inr (a\<lparr>concurrent := Number_js conv (fst (next_value rest))\<rparr>, snd (next_value rest))
      else if v = ''--noMtime'' then Inr (a\<lparr>noMtime := True\<rparr>, rest)
      else if v = ''--keepMtime'' then Inr (a\<lparr>noMtime := False\<rparr>, rest)
      else if v = ''--noGeoBypass'' then Inr (a\<lparr>geoBypass := False\<rparr>, rest)
      else if v = ''--geo'' then
        Inr (a\<lparr>geoBypassCountry := fst (next_value rest)\<rparr>, snd (next_value rest))
      else if v = ''--extractorArgs'' then
        Inr (a\<lparr>extractorArgs := fst (next_value rest)\<rparr>, snd (next_value rest))
      else if v = ''--verbose'' then Inr (a\<lparr>verbose := True\<rparr>, rest)
      else if v = ''--update'' then Inr (a\<lparr>update := True\<rparr>, rest)
      else if v = ''--noPrompt'' then Inr (a\<lparr>noPrompt := True\<rparr>, rest)
      else if startsWith_dash v then Inl (ProcessExit 1 (UnknownOption v))
      else Inr (a\<lparr>urls := urls a @ [v]\<rparr>, rest))"

lemma next_value_length: "length (snd (next_value rest)) \<le> length rest"
  by (cases rest) simp_all

lemma parse_case_length:
  "parse_case conv v rest a = Inr (a', rest') \<Longrightarrow> length rest' \<le> length rest"
  unfolding parse_case_def using next_value_length [of rest]
  by (auto split: if_splits)

text \<open>The \<open>for\<close> loop over the iterator.\<close>

function parse_loop :: "(string \<Rightarrow> jsnum) \<Rightarrow> string list \<Rightarrow> args \<Rightarrow> stop + args" where
  "parse_loop conv [] a = Inr a"
| "parse_loop conv (v # rest) a =
     (case parse_case conv v rest a of
        Inl e \<Rightarrow> Inl e
      | Inr (a', rest') \<Rightarrow> parse_loop conv rest' a')"
  by pat_completeness auto
termination
  by (relation "measure (\<lambda>(conv, xs, a). length xs)")
     (auto dest: parse_case_length)

text \<open>
  The batch file: \<open>data.split(/\r?\n/).map(s => s.trim()).filter(Boolean)\<close>.
  \<open>split_lines cur cs\<close> scans \<open>cs\<close> with \<open>cur\<close> the piece read so far; a line feed,
  alone or after a carriage return, ends a piece.
\<close>

fun split_lines :: "string \<Rightarrow> string \<Rightarrow> string list" where
  "split_lines cur [] = [cur]"
| "split_lines cur [c] = (if c = CHR 0x0A then [cur, []] else [cur @ [c]])"
| "split_lines cur (c # d # cs) =
     (if c = CHR 0x0A then cur # split_lines [] (d # cs)
      else if c = CHR 0x0D \<and> d = CHR 0x0A then cur # split_lines [] cs
      else split_lines (cur @ [c]) (d # cs))"

text \<open>White space and line terminators of JavaScript within U+0000 to U+00FF.\<close>

definition is_ws :: "char \<Rightarrow> bool" where
  "is_ws c = (c \<in> set [CHR 0x09, CHR 0x0A, CHR 0x0B, CHR 0x0C, CHR 0x0D, CHR 0x20, CHR 0xA0])"

definition trim :: "string \<Rightarrow> string" where
  "trim s = rev (dropWhile is_ws (rev (dropWhile is_ws s)))"

definition batch_lines :: "string \<Rightarrow> string list" where
  "batch_lines data = filter (\<lambda>s. s \<noteq> []) (map trim (split_lines [] data))"

text \<open>
  \<open>parseArgs\<close>. \<open>readFile path\<close> is the content \<open>readFileSync(path, "utf8")\<close> returns,
  or \<open>None\<close> when it throws. The first two elements of \<open>argv\<close> are skipped.
\<close>

definition parseArgs ::
  "(string \<Rightarrow> jsnum) \<Rightarrow> (string \<Rightarrow> string option) \<Rightarrow> string list \<Rightarrow> stop + args" where
  "parseArgs conv readFile argv =
     (case parse_loop conv (drop 2 argv) initial_args of
        Inl e \<Rightarrow> Inl e
      | Inr a \<Rightarrow>
          (case (if truthy (fromFile a) then
                   (case fromFile a of
                      Str path \<Rightarrow>
                        (case readFile path of
                           None \<Rightarrow> Inl Thrown
                         | Some data \<Rightarrow> Inr (a\<lparr>urls := urls a @ batch_lines data\<rparr>))
                    | _ \<Rightarrow> Inr a)
                 else Inr a) of
             Inl e \<Rightarrow> Inl e
           | Inr b \<Rightarrow> if length (urls b) = 0 then Inl (ProcessExit 1 Usage) else Inr b))"

section \<open>ensureDir and chooseFormatInteractive\<close>

text \<open>
  \<open>ensureDir(p)\<close>: \<open>resolve\<close> throws on a value that is not a string; \<open>can_ensure d\<close>
  says that the directory exists or \<open>mkdirSync\<close> creates it (it throws otherwise).
\<close>

definition ensureDir :: "(string \<Rightarrow> bool) \<Rightarrow> jsval \<Rightarrow> stop + unit" where
  "ensureDir can_ensure p =
     (case p of Str d \<Rightarrow> if can_ensure d then Inr () else Inl Thrown | _ \<Rightarrow> Inl Thrown)"

definition FORMAT_1080 :: string where
  "FORMAT_1080 = ''bestvideo[ext=mp4][height<=1080]+bestaudio[ext=m4a]/best[ext=mp4]''"

definition FORMAT_720 :: string where
  "FORMAT_720 = ''bestvideo[ext=mp4][height<=720]+bestaudio[ext=m4a]/best[ext=mp4]''"

definition FORMAT_480 :: string where
  "FORMAT_480 = ''bestvideo[ext=mp4][height<=480]+bestaudio[ext=m4a]/best[ext=mp4]''"

definition PROMPT_LINES :: "string list" where
  "PROMPT_LINES =
     [CHR 0x0A # ''Choose output quality (applies to all URLs this run):'',
      ''  1) MP4 up to 1080p (best <=1080)'',
      ''  2) MP4 up to 720p'',
      ''  3) MP4 up to 480p'',
      ''  4) Audio-only (M4A)'' @ [CHR 0x0A],
      ''Enter 1/2/3/4 [default 1]: '']"

text \<open>
  \<open>chooseFormatInteractive\<close> with the line \<open>ans\<close> read from the terminal: the text
  written to the terminal (empty when nothing is asked) and the updated object.
\<close>

definition chooseFormatInteractive :: "string \<Rightarrow> args \<Rightarrow> string list \<times> args" where
  "chooseFormatInteractive ans a =
     (if noPrompt a \<or> formatProvided a \<or> audioOnly a then ([], a)
      else
        (let choice = (if trim ans \<noteq> [] then trim ans else ''1'') in
         if choice = ''1'' then (PROMPT_LINES, a\<lparr>format := Str FORMAT_1080\<rparr>)
         else if choice = ''2'' then (PROMPT_LINES, a\<lparr>format := Str FORMAT_720\<rparr>)
         else if choice = ''3'' then (PROMPT_LINES, a\<lparr>format := Str FORMAT_480\<rparr>)
         else if choice = ''4'' then (PROMPT_LINES, a\<lparr>audioOnly := True\<rparr>)
         else (PROMPT_LINES @ [''Unrecognised choice; using 1080p default.''],
               a\<lparr>format := Str FORMAT_1080\<rparr>)))"

section \<open>downloadOne\<close>

text \<open>
  The option object \<open>ytdlpArgs\<close> as a list of keys and values in the order of the
  object literal. \<open>VJoin d t\<close> stands for \<open>join(d, t)\<close> of \<open>node:path\<close>, which throws
  on an argument that is not a string: then there is no object (\<open>None\<close>).
\<close>

datatype optval = VBool bool | VNum nat | VStr string | VVal jsval | VList "string list"
  | VJoin string string

definition format_or_fallback :: "args \<Rightarrow> string" where
  "format_or_fallback a =
     (if truthy (format a) then (case format a of Str s \<Rightarrow> s | _ \<Rightarrow> DEFAULT_FORMAT_FALLBACK)
      else DEFAULT_FORMAT_FALLBACK)"

definition when_set :: "string \<Rightarrow> jsval \<Rightarrow> (string \<times> optval) list" where
  "when_set k v = (if truthy v then [(k, VVal v)] else [])"

definition ytdlpArgs :: "args \<Rightarrow> (string \<times> optval) list option" where
  "ytdlpArgs a =
     (case (outDir a, outTemplate a) of
        (Str d, Str t) \<Rightarrow>
          Some
           ((if audioOnly a then
               [(''extractAudio'', VBool True), (''audioFormat'', VVal (audioFormat a)),
                (''audioQuality'', VStr ''0'')]
             else [(''format'', VStr (format_or_fallback a))])
            @ [(''output'', VJoin d t)]
            @ (if noMtime a then [(''no-mtime'', VBool True)] else [])
            @ [(''fragment-retries'', VNum 10), (''retries'', VNum 5),
               (''concurrent-fragments'', VNum 4)]
            @ (if playlist a then [(''yes-playlist'', VBool True)]
               else [(''no-playlist'', VBool True)])
            @ (if subs a then
                 [(''writeauto'', VBool True), (''subLangs'', VVal (subsLang a)),
                  (''subFormat'', VStr ''srt/best'')]
                 @ (if subsEmbed a then [(''embedSubs'', VBool True)] else [])
               else [])
            @ when_set ''limitRate'' (rateLimit a)
            @ when_set ''cookies'' (cookies a)
            @ when_set ''proxy'' (proxy a)
            @ [(''addHeader'',
                VList [''User-Agent: Mozilla/5.0'', ''Accept-Language: en-US,en;q=0.9''])]
            @ (if geoBypass a then [(''geoBypass'', VBool True)]
               else [(''noGeoBypass'', VBool True)])
            @ when_set ''geoBypassCountry'' (geoBypassCountry a)
            @ when_set ''extractorArgs'' (extractorArgs a)
            @ (if update a then [(''update'', VBool True)] else [(''no-update'', VBool True)])
            @ [(''newline'', VBool True)])
      | _ \<Rightarrow> None)"

text \<open>
  What one call of \<open>downloadOne\<close> and its retries write and wait for. \<open>ytdl k\<close> says
  whether the \<open>k\<close>-th call of the external downloader for this job succeeds. The
  promise of \<open>downloadOne\<close> is fulfilled or rejected; a retry loop that never ends
  (an infinite retry limit and a download that never succeeds) is the value \<open>None\<close>.
\<close>

datatype event = Downloading string | OkLine string | ErrorLine string nat jsnum
  | ErrorDetail | Sleep nat

datatype outcome = Fulfilled | Rejected

fun js_plus1 :: "jsnum \<Rightarrow> jsnum" where
  "js_plus1 (Fin x) = Fin (x + 1)"
| "js_plus1 n = n"

partial_function (option) downloadOne ::
  "(nat \<Rightarrow> bool) \<Rightarrow> string \<Rightarrow> args \<Rightarrow> nat \<Rightarrow> event list \<Rightarrow> (event list \<times> outcome) option" where
  "downloadOne ytdl url a attempt out =
     (case ytdlpArgs a of
        None \<Rightarrow> Some (out, Rejected)
      | Some d \<Rightarrow>
          if ytdl attempt then Some (out @ [Downloading url, OkLine url], Fulfilled)
          else if js_le (of_count (int attempt)) (retries a) then
            downloadOne ytdl url a (attempt + 1)
              (out @ [Downloading url, ErrorLine url attempt (js_plus1 (retries a))]
                   @ (if verbose a then [ErrorDetail] else [])
                   @ [Sleep (1500 * attempt)])
          else
            Some (out @ [Downloading url, ErrorLine url attempt (js_plus1 (retries a))]
                      @ (if verbose a then [ErrorDetail] else []), Rejected))"

section \<open>The scheduler of run\<close>

text \<open>
  A job is the promise chain \<open>downloadOne(url, args).catch(...).finally(...)\<close>:
  \<open>Pending\<close> while \<open>downloadOne\<close> has not settled, \<open>Failed\<close> once it is rejected and
  the \<open>catch\<close> handler has not run, \<open>Settling ok\<close> when only the \<open>finally\<close> handler
  is left to run, \<open>Done ok\<close> after it. The jobs are kept in the order they were started.
\<close>

datatype phase = Pending | Failed | Settling bool | Done bool

record sched =
  queue :: "string list"
  active :: int
  failures :: "string list"
  jobs :: "(string \<times> phase) list"

text \<open>\<open>queue.shift(); active += 1; downloadOne(url, args)...\<close> for the head \<open>u\<close> of the queue.\<close>

definition admit :: "string \<Rightarrow> string list \<Rightarrow> sched \<Rightarrow> sched" where
  "admit u q s = s\<lparr>queue := q, active := active s + 1, jobs := jobs s @ [(u, Pending)]\<rparr>"

function pump_while :: "jsnum \<Rightarrow> sched \<Rightarrow> sched" where
  "pump_while c s =
     (case queue s of
        [] \<Rightarrow> s
      | u # q \<Rightarrow> if js_lt (of_count (active s)) c then pump_while c (admit u q s) else s)"
  by pat_completeness auto
termination
  by (relation "measure (\<lambda>(c, s). length (queue s))") (auto simp: admit_def)

declare pump_while.simps [simp del]

definition pump :: "jsnum \<Rightarrow> sched \<Rightarrow> sched" where
  "pump c s =
     (case queue s of
        [] \<Rightarrow> s
      | u # q \<Rightarrow> if js_ge (of_count (active s)) c then s else pump_while c (admit u q s))"

text \<open>
  One turn of the event loop on the job at index \<open>i\<close>: its promise is fulfilled or
  rejected, its \<open>catch\<close> handler runs, or its \<open>finally\<close> handler runs (and calls
  \<open>pump\<close>). \<open>None\<close> when the job is not in the phase the turn needs. Jobs may take
  their turns in any order: every order in which the event loop can run the handlers
  is a list of turns, so what holds for all lists of turns holds for all runs.
\<close>

datatype turn = Fulfil nat | Reject nat | Catch nat | Finally nat

definition set_phase :: "nat \<Rightarrow> phase \<Rightarrow> sched \<Rightarrow> sched" where
  "set_phase i p s = s\<lparr>jobs := (jobs s)[i := (fst (jobs s ! i), p)]\<rparr>"

fun fire :: "jsnum \<Rightarrow> turn \<Rightarrow> sched \<Rightarrow> sched option" where
  "fire c (Fulfil i) s =
     (if i < length (jobs s) \<and> snd (jobs s ! i) = Pending
      then Some (set_phase i (Settling True) s) else None)"
| "fire c (Reject i) s =
     (if i < length (jobs s) \<and> snd (jobs s ! i) = Pending
      then Some (set_phase i Failed s) else None)"
| "fire c (Catch i) s =
     (if i < length (jobs s) \<and> snd (jobs s ! i) = Failed
      then Some (set_phase i (Settling False) (s\<lparr>failures := failures s @ [fst (jobs s ! i)]\<rparr>))
      else None)"
| "fire c (Finally i) s =
     (if i < length (jobs s) then
        (case snd (jobs s ! i) of
           Settling ok \<Rightarrow> Some (pump c (set_phase i (Done ok) (s\<lparr>active := active s - 1\<rparr>)))
         | _ \<Rightarrow> None)
      else None)"

fun exec :: "jsnum \<Rightarrow> turn list \<Rightarrow> sched \<Rightarrow> sched option" where
  "exec c [] s = Some s"
| "exec c (t # ts) s = (case fire c t s of None \<Rightarrow> None | Some s' \<Rightarrow> exec c ts s')"

text \<open>The state after \<open>await pump()\<close> in \<open>run\<close>, and the condition that ends the drain loop.\<close>

definition first_pump :: "jsnum \<Rightarrow> string list \<Rightarrow> sched" where
  "first_pump c us = pump c \<lparr>queue = us, active = 0, failures = [], jobs = []\<rparr>"

definition drained :: "sched \<Rightarrow> bool" where
  "drained s = (\<not> (active s > 0 \<or> length (queue s) > 0))"

section \<open>The summary and the whole run\<close>

definition digit_char :: "nat \<Rightarrow> char" where
  "digit_char n = ''0123456789'' ! n"

fun show_nat :: "nat \<Rightarrow> string" where
  "show_nat n =
     (if n < 10 then [digit_char n] else show_nat (n div 10) @ [digit_char (n mod 10)])"

declare show_nat.simps [simp del]

text \<open>The lines written at the end of \<open>run\<close> and the exit status of the process.\<close>

definition report :: "string list \<Rightarrow> string list \<times> nat" where
  "report fs =
     (if length fs \<noteq> 0 then
        ([CHR 0x0A # ''Completed with '' @ show_nat (length fs) @ '' failure(s):'']
           @ map (\<lambda>u. '' - '' @ u) fs, 2)
      else ([CHR 0x0A # ''All downloads completed successfully.''], 0))"

text \<open>
  The environment of a run. \<open>answer\<close> is the line the terminal gives to
  \<open>askQuestion\<close>, or \<open>None\<close> when the input ends without one.
\<close>

record env =
  number :: "string \<Rightarrow> jsnum"
  readFile :: "string \<Rightarrow> string option"
  can_ensure :: "string \<Rightarrow> bool"
  answer :: "string option"

text \<open>
  Everything \<open>run\<close> does before \<open>await pump()\<close>. \<open>chooseFormatInteractive\<close> returns
  at its first line, before any question, when one of the three flags is set; otherwise
  it waits for the answer.
\<close>

definition startup :: "env \<Rightarrow> string list \<Rightarrow> stop + string list \<times> args" where
  "startup e argv =
     (case parseArgs (number e) (readFile e) argv of
        Inl x \<Rightarrow> Inl x
      | Inr a \<Rightarrow>
          (case ensureDir (can_ensure e) (outDir a) of
             Inl x \<Rightarrow> Inl x
           | Inr _ \<Rightarrow>
               (if noPrompt a \<or> formatProvided a \<or> audioOnly a
                then Inr (chooseFormatInteractive [] a)
                else
                  (case answer e of
                     None \<Rightarrow> Inl Unanswered
                   | Some line \<Rightarrow> Inr (chooseFormatInteractive line a)))))"

text \<open>
  The run under a list of turns of the event loop: the process has exited with a status
  (after writing the lines), is still in the drain loop, or the list is not a run of
  the program.
\<close>

datatype result = Exited nat "string list" | Waiting sched | NoSuchRun

definition run :: "env \<Rightarrow> string list \<Rightarrow> turn list \<Rightarrow> result" where
  "run e argv ts =
     (case startup e argv of
        Inl x \<Rightarrow> (if ts = [] then Exited (exit_status x) [] else NoSuchRun)
      | Inr (shown, a) \<Rightarrow>
          (case exec (concurrent a) ts (first_pump (concurrent a) (urls a)) of
             None \<Rightarrow> NoSuchRun
           | Some s \<Rightarrow>
               if drained s then Exited (snd (report (failures s))) (fst (report (failures s)))
               else Waiting s))"

section \<open>Invariants of the scheduler\<close>

text \<open>
  A job is live until its \<open>finally\<close> handler has run; it has failed once its \<open>catch\<close>
  handler has run.
\<close>

definition live :: "phase \<Rightarrow> bool" where
  "live p = (case p of Done ok \<Rightarrow> False | _ \<Rightarrow> True)"

definition failed_job :: "string \<times> phase \<Rightarrow> bool" where
  "failed_job j = (snd j = Settling False \<or> snd j = Done False)"

definition sched_inv :: "string list \<Rightarrow> sched \<Rightarrow> bool" where
  "sched_inv us s =
     (map fst (jobs s) @ queue s = us \<and>
      active s = int (length (filter (\<lambda>j. live (snd j)) (jobs s))) \<and>
      mset (failures s) = mset (map fst (filter failed_job (jobs s))))"

definition saturated :: "nat \<Rightarrow> sched \<Rightarrow> bool" where
  "saturated k s = (active s \<le> int k \<and> (queue s \<noteq> [] \<longrightarrow> active s = int k))"

text \<open>
  An environment for the examples: no batch file can be read, every directory can be
  made, the terminal answers with an empty line.
\<close>

definition example_env :: env where
  "example_env =
     \<lparr>number = decimal, readFile = (\<lambda>p. None), can_ensure = (\<lambda>d. True),
      answer = Some []\<rparr>"

section \<open>Reading the events of one job\<close>

text \<open>
  The events of a failed call of the external downloader, the number of calls in a
  list of events, the waits in it, and the events of the failed calls \<open>n\<close> to \<open>k - 1\<close>
  with the wait after each.
\<close>

definition failed_attempt :: "string \<Rightarrow> args \<Rightarrow> nat \<Rightarrow> event list" where
  "failed_attempt url a k =
     [Downloading url, ErrorLine url k (js_plus1 (retries a))]
     @ (if verbose a then [ErrorDetail] else [])"

definition attempts :: "event list \<Rightarrow> nat" where
  "attempts tr = length (filter (\<lambda>ev. case ev of Downloading u \<Rightarrow> True | _ \<Rightarrow> False) tr)"

fun sleeps :: "event list \<Rightarrow> nat list" where
  "sleeps [] = []"
| "sleeps (Sleep ms # tr) = ms # sleeps tr"
| "sleeps (ev # tr) = sleeps tr"

definition failed_rounds :: "string \<Rightarrow> args \<Rightarrow> nat \<Rightarrow> nat \<Rightarrow> event list" where
  "failed_rounds url a n k =
     concat (map (\<lambda>j. failed_attempt url a j @ [Sleep (1500 * j)]) [n..<k])"

section \<open>The shape of a command line\<close>

text \<open>
  The options that read a value and those that do not. A list of arguments is
  \<open>aligned\<close> when it is made of whole options (no option at its end still waits for
  its value), so that what follows it is read in option position. The positional
  arguments of a command line are the arguments in option position that do not start
  with a dash. A line is blank when it holds white space only.
\<close>

definition value_options :: "string list" where
  "value_options =
     [''--format'', ''--audioFormat'', ''--outDir'', ''--outTemplate'', ''--rateLimit'',
      ''--retries'', ''--lang'', ''--fromFile'', ''--cookies'', ''--proxy'', ''--concurrent'',
      ''--geo'', ''--extractorArgs'']"

definition switch_options :: "string list" where
  "switch_options =
     [''--audio'', ''--noPlaylist'', ''--subs'', ''--noEmbedSubs'', ''--noMtime'',
      ''--keepMtime'', ''--noGeoBypass'', ''--verbose'', ''--update'', ''--noPrompt'']"

definition takes_value :: "string \<Rightarrow> bool" where
  "takes_value v = (v \<in> set value_options)"

fun aligned :: "string list \<Rightarrow> bool" where
  "aligned [] = True"
| "aligned [v] = (\<not> takes_value v)"
| "aligned (v # w # rest) = (if takes_value v then aligned rest else aligned (w # rest))"

fun positionals :: "string list \<Rightarrow> string list" where
  "positionals [] = []"
| "positionals [v] = (if startsWith_dash v then [] else [v])"
| "positionals (v # w # rest) =
     (if takes_value v then positionals rest
      else if startsWith_dash v then positionals (w # rest)
      else v # positionals (w # rest))"

definition blank :: "string \<Rightarrow> bool" where
  "blank l = list_all is_ws l"

text \<open>A batch file for the examples, with a blank line, padding and a repeated locator.\<close>

definition example_file :: "string \<Rightarrow> string option" where
  "example_file p =
     (if p = ''list.txt''
      then Some (''A'' @ [CHR 0x0D, CHR 0x0A, CHR 0x0A] @ ''  C '' @ [CHR 0x0A] @ ''A'')
      else None)"

section \<open>Option objects of the examples\<close>

text \<open>
  The option object built after \<open>--geo AU u\<close>, and the one built after
  \<open>--audio u --format best\<close>.
\<close>

definition geo_descriptor :: "(string \<times> optval) list" where
  "geo_descriptor =
     [(''format'', VStr DEFAULT_FORMAT_FALLBACK),
      (''output'', VJoin ''./downloads'' DEFAULT_OUTPUT_TEMPLATE),
      (''no-mtime'', VBool True),
      (''fragment-retries'', VNum 10), (''retries'', VNum 5), (''concurrent-fragments'', VNum 4),
      (''yes-playlist'', VBool True),
      (''addHeader'', VList [''User-Agent: Mozilla/5.0'', ''Accept-Language: en-US,en;q=0.9'']),
      (''geoBypass'', VBool True),
      (''geoBypassCountry'', VVal (Str ''AU'')),
      (''no-update'', VBool True),
      (''newline'', VBool True)]"

definition audio_descriptor :: "(string \<times> optval) list" where
  "audio_descriptor =
     [(''extractAudio'', VBool True), (''audioFormat'', VVal (Str ''m4a'')),
      (''audioQuality'', VStr ''0''),
      (''output'', VJoin ''./downloads'' DEFAULT_OUTPUT_TEMPLATE),
      (''no-mtime'', VBool True),
      (''fragment-retries'', VNum 10), (''retries'', VNum 5), (''concurrent-fragments'', VNum 4),
      (''yes-playlist'', VBool True),
      (''addHeader'', VList [''User-Agent: Mozilla/5.0'', ''Accept-Language: en-US,en;q=0.9'']),
      (''geoBypass'', VBool True),
      (''no-update'', VBool True),
      (''newline'', VBool True)]"

text \<open>The counter under a finite limit \<open>q\<close> that need not be an integer.\<close>

definition below_limit :: "rat \<Rightarrow> sched \<Rightarrow> bool" where
  "below_limit q s = (active s \<le> 0 \<or> of_int (active s) < q + 1)"

section \<open>Proofs about the scheduler\<close>

lemma js_lt_count: "js_lt (of_count n) (Fin (of_nat k)) = (n < int k)"
proof -
  have "(of_nat k :: rat) = of_int (int k)" by simp
  then show ?thesis unfolding of_count_def by (simp only: js_lt.simps of_int_less_iff)
qed

lemma js_ge_count: "js_ge (of_count n) (Fin (of_nat k)) = (int k \<le> n)"
proof -
  have k: "(of_nat k :: rat) = of_int (int k)" by simp
  have "js_ge (of_count n) (Fin (of_nat k)) = ((of_int (int k) :: rat) < of_int n \<or> (of_int (int k) :: rat) = of_int n)"
    unfolding of_count_def js_ge_def js_le_def k by auto
  also have "\<dots> = (int k \<le> n)" unfolding of_int_less_iff of_int_eq_iff by auto
  finally show ?thesis .
qed

lemma admit_inv: "sched_inv us s \<Longrightarrow> queue s = u # q \<Longrightarrow> sched_inv us (admit u q s)"
  by (auto simp: sched_inv_def admit_def live_def failed_job_def)

lemma pump_while_inv: "sched_inv us s \<Longrightarrow> sched_inv us (pump_while c s)"
proof (induction c s rule: pump_while.induct)
  case (1 c s)
  show ?case
  proof (cases "queue s")
    case Nil
    then show ?thesis using 1 by (simp add: pump_while.simps [of c s])
  next
    case (Cons u q)
    then show ?thesis using 1 admit_inv [of us s u q]
      by (simp add: pump_while.simps [of c s])
  qed
qed

lemma pump_inv: "sched_inv us s \<Longrightarrow> sched_inv us (pump c s)"
  by (auto simp: pump_def admit_inv pump_while_inv split: list.splits)

lemma set_phase_fields:
  "queue (set_phase i p s) = queue s" "active (set_phase i p s) = active s"
  "failures (set_phase i p s) = failures s"
  "jobs (set_phase i p s) = (jobs s)[i := (fst (jobs s ! i), p)]"
  by (simp_all add: set_phase_def)

lemma update_split:
  assumes "i < length js" and "snd (js ! i) = p"
  shows "\<exists>pre u post. js = pre @ (u, p) # post \<and> fst (js ! i) = u \<and>
           js[i := (fst (js ! i), p')] = pre @ (u, p') # post"
proof -
  have "js = take i js @ (js ! i) # drop (Suc i) js"
    using assms(1) by (simp add: id_take_nth_drop)
  moreover have "js ! i = (fst (js ! i), p)" using assms(2) by (cases "js ! i") simp
  moreover have "js[i := (fst (js ! i), p')] = take i js @ (fst (js ! i), p') # drop (Suc i) js"
    using assms(1) by (simp add: upd_conv_take_nth_drop)
  ultimately show ?thesis by metis
qed

lemma phase_change_inv:
  assumes "sched_inv us s" and "jobs s = pre @ (u, p) # post"
    and "jobs s' = pre @ (u, p') # post" and "queue s' = queue s"
    and "active s' = active s + (if live p' then 1 else 0) - (if live p then 1 else 0)"
    and "mset (failures s') + (if failed_job (u, p) then {#u#} else {#})
           = mset (failures s) + (if failed_job (u, p') then {#u#} else {#})"
  shows "sched_inv us s'"
  using assms unfolding sched_inv_def by (simp split: if_splits)

lemma fire_inv:
  assumes "sched_inv us s" and "fire c t s = Some s'"
  shows "sched_inv us s'"
proof (cases t)
  case (Fulfil i)
  with assms(2) have i: "i < length (jobs s)" "snd (jobs s ! i) = Pending"
    and s': "s' = set_phase i (Settling True) s" by (auto split: if_splits)
  from update_split [OF i, of "Settling True"] obtain pre u post where
    "jobs s = pre @ (u, Pending) # post" "jobs s' = pre @ (u, Settling True) # post"
    unfolding s' set_phase_fields by blast
  then show ?thesis
    by (rule phase_change_inv [OF assms(1)])
       (simp_all add: s' set_phase_fields live_def failed_job_def)
next
  case (Reject i)
  with assms(2) have i: "i < length (jobs s)" "snd (jobs s ! i) = Pending"
    and s': "s' = set_phase i Failed s" by (auto split: if_splits)
  from update_split [OF i, of Failed] obtain pre u post where
    "jobs s = pre @ (u, Pending) # post" "jobs s' = pre @ (u, Failed) # post"
    unfolding s' set_phase_fields by blast
  then show ?thesis
    by (rule phase_change_inv [OF assms(1)])
       (simp_all add: s' set_phase_fields live_def failed_job_def)
next
  case (Catch i)
  with assms(2) have i: "i < length (jobs s)" "snd (jobs s ! i) = Failed"
    and s': "s' = set_phase i (Settling False) (s\<lparr>failures := failures s @ [fst (jobs s ! i)]\<rparr>)"
    by (auto split: if_splits)
  from update_split [OF i, of "Settling False"] obtain pre u post where
    js: "jobs s = pre @ (u, Failed) # post" "jobs s' = pre @ (u, Settling False) # post"
    and u: "fst (jobs s ! i) = u"
    unfolding s' set_phase_fields by auto
  from js show ?thesis
    by (rule phase_change_inv [OF assms(1)])
       (simp_all add: s' set_phase_fields live_def failed_job_def u)
next
  case (Finally i)
  define s1 where "s1 = set_phase i (Done (snd (jobs s ! i) = Settling True)) (s\<lparr>active := active s - 1\<rparr>)"
  from Finally assms(2) obtain ok where i: "i < length (jobs s)" "snd (jobs s ! i) = Settling ok"
    and s': "s' = pump c s1"
    by (auto simp: s1_def split: if_splits phase.splits)
  from update_split [OF i, of "Done ok"] i(2) obtain pre u post where
    "jobs s = pre @ (u, Settling ok) # post" "jobs s1 = pre @ (u, Done ok) # post"
    unfolding s1_def set_phase_fields by auto
  then have "sched_inv us s1"
    by (rule phase_change_inv [OF assms(1)])
       (simp_all add: s1_def set_phase_fields live_def failed_job_def)
  then show ?thesis unfolding s' by (rule pump_inv)
qed

lemma exec_inv: "sched_inv us s \<Longrightarrow> exec c ts s = Some s' \<Longrightarrow> sched_inv us s'"
  by (induction ts arbitrary: s) (auto split: option.splits dest: fire_inv)

lemma first_pump_inv: "sched_inv us (first_pump c us)"
  unfolding first_pump_def by (rule pump_inv) (simp add: sched_inv_def)


lemma pump_while_bound:
  "active s \<le> int k \<Longrightarrow>
     active (pump_while (Fin (of_nat k)) s) \<le> int k \<and>
     (queue (pump_while (Fin (of_nat k)) s) \<noteq> [] \<longrightarrow> active (pump_while (Fin (of_nat k)) s) = int k)"
proof (induction "Fin (of_nat k)" s rule: pump_while.induct)
  case (1 s)
  show ?case
  proof (cases "queue s")
    case Nil
    then show ?thesis using 1(2) by (simp add: pump_while.simps [of _ s])
  next
    case (Cons u q)
    show ?thesis
    proof (cases "active s < int k")
      case True
      then have "active (admit u q s) \<le> int k" by (simp add: admit_def)
      with 1(1) [OF Cons] True Cons show ?thesis
        by (simp add: pump_while.simps [of _ s] js_lt_count)
    next
      case False
      with 1(2) Cons show ?thesis
        by (simp add: pump_while.simps [of _ s] js_lt_count)
    qed
  qed
qed

lemma pump_bound:
  assumes "active s \<le> int k"
  shows "active (pump (Fin (of_nat k)) s) \<le> int k \<and>
     (queue (pump (Fin (of_nat k)) s) \<noteq> [] \<longrightarrow> active (pump (Fin (of_nat k)) s) = int k)"
proof (cases "queue s")
  case Nil
  then show ?thesis using assms by (simp add: pump_def)
next
  case (Cons u q)
  show ?thesis
  proof (cases "int k \<le> active s")
    case True
    then show ?thesis using assms Cons by (simp add: pump_def js_ge_count)
  next
    case False
    then have "active (admit u q s) \<le> int k" by (simp add: admit_def)
    from pump_while_bound [OF this] False Cons show ?thesis
      by (simp add: pump_def js_ge_count)
  qed
qed

lemma fire_saturated:
  assumes "saturated k s" and "fire (Fin (of_nat k)) t s = Some s'"
  shows "saturated k s'"
proof (cases t)
  case (Finally i)
  with assms(2) obtain ok where
    s': "s' = pump (Fin (of_nat k)) (set_phase i (Done ok) (s\<lparr>active := active s - 1\<rparr>))"
    by (auto split: if_splits phase.splits)
  have "active (set_phase i (Done ok) (s\<lparr>active := active s - 1\<rparr>)) \<le> int k"
    using assms(1) by (simp add: saturated_def set_phase_fields)
  from pump_bound [OF this] show ?thesis unfolding s' saturated_def .
qed (use assms in \<open>auto simp: saturated_def set_phase_fields split: if_splits\<close>)

lemma exec_saturated:
  "saturated k s \<Longrightarrow> exec (Fin (of_nat k)) ts s = Some s' \<Longrightarrow> saturated k s'"
  by (induction ts arbitrary: s) (auto split: option.splits dest: fire_saturated)

lemma first_pump_saturated: "saturated k (first_pump (Fin (of_nat k)) us)"
  unfolding first_pump_def saturated_def by (rule pump_bound) simp

lemma pump_while_full: "active s = int k \<Longrightarrow> pump_while (Fin (of_nat k)) s = s"
  by (simp add: pump_while.simps [of _ s] js_lt_count split: list.splits)

lemma finally_refills:
  assumes "saturated k s" and "queue s = u # q"
    and "fire (Fin (of_nat k)) (Finally i) s = Some s'"
  shows "queue s' = q \<and> active s' = int k \<and>
         jobs s' = (jobs s)[i := (fst (jobs s ! i), Done (snd (jobs s ! i) = Settling True))] @ [(u, Pending)]"
proof -
  from assms(3) obtain ok where ok: "snd (jobs s ! i) = Settling ok"
    and s': "s' = pump (Fin (of_nat k)) (set_phase i (Done ok) (s\<lparr>active := active s - 1\<rparr>))"
    by (auto split: if_splits phase.splits)
  define s1 where "s1 = set_phase i (Done ok) (s\<lparr>active := active s - 1\<rparr>)"
  have a: "active s = int k" using assms(1,2) by (simp add: saturated_def)
  have s1: "queue s1 = u # q" "active s1 = int k - 1"
    "jobs s1 = (jobs s)[i := (fst (jobs s ! i), Done ok)]"
    using a assms(2) by (simp_all add: s1_def set_phase_fields)
  have "pump_while (Fin (of_nat k)) (admit u q s1) = admit u q s1"
    by (rule pump_while_full) (simp add: admit_def s1)
  then have "s' = admit u q s1"
    unfolding s' s1_def [symmetric] by (simp add: pump_def s1 js_ge_count)
  then show ?thesis using ok by (simp add: admit_def s1)
qed

text \<open>
  Claim C1. With an integer concurrency limit \<open>k \<ge> 1\<close>, in every state the scheduler
  reaches from the first call of \<open>pump\<close>, the counter \<open>active\<close> is at most \<open>k\<close> and
  equals the number of jobs whose \<open>finally\<close> handler has not run. While a locator is
  queued the pool is full, and the \<open>finally\<close> handler of any job starts the locator at
  the head of the queue in the same turn: no batch boundary is waited for.
\<close>

theorem active_never_exceeds_limit:
  assumes "1 \<le> k"
    and "exec (Fin (of_nat k)) ts (first_pump (Fin (of_nat k)) us) = Some s"
  shows "active s \<le> int k \<and>
         active s = int (length (filter (\<lambda>j. live (snd j)) (jobs s))) \<and>
         (queue s \<noteq> [] \<longrightarrow> active s = int k) \<and>
         (\<forall>i s' u q. queue s = u # q \<and> fire (Fin (of_nat k)) (Finally i) s = Some s' \<longrightarrow>
            queue s' = q \<and> active s' = int k \<and> last (jobs s') = (u, Pending))"
proof -
  have sat: "saturated k s"
    using exec_saturated [OF first_pump_saturated assms(2)] .
  have inv: "sched_inv us s"
    using exec_inv [OF first_pump_inv assms(2)] .
  have "queue s' = q \<and> active s' = int k \<and> last (jobs s') = (u, Pending)"
    if "queue s = u # q" "fire (Fin (of_nat k)) (Finally i) s = Some s'" for i s' u q
    using finally_refills [OF sat that] by simp
  then show ?thesis
    using sat inv unfolding saturated_def sched_inv_def by blast
qed

lemmas sched_eval = first_pump_def pump_def pump_while.simps admit_def set_phase_def
  of_count_def js_ge_def js_le_def

theorem active_never_exceeds_limit_witness:
  "(1::nat) \<le> 2 \<and>
   exec (Fin (of_nat 2)) [Fulfil 0] (first_pump (Fin (of_nat 2)) [''A'', ''B'', ''C'']) =
     Some \<lparr>queue = [''C''], active = 2, failures = [],
           jobs = [(''A'', Settling True), (''B'', Pending)]\<rparr> \<and>
   active \<lparr>queue = [''C''], active = 2, failures = [],
           jobs = [(''A'', Settling True), (''B'', Pending)]\<rparr> \<le> int 2 \<and>
   fire (Fin (of_nat 2)) (Finally 0)
     \<lparr>queue = [''C''], active = 2, failures = [],
      jobs = [(''A'', Settling True), (''B'', Pending)]\<rparr> =
     Some \<lparr>queue = [], active = 2, failures = [],
           jobs = [(''A'', Done True), (''B'', Pending), (''C'', Pending)]\<rparr> \<and>
   last (jobs \<lparr>queue = [], active = 2, failures = [],
           jobs = [(''A'', Done True), (''B'', Pending), (''C'', Pending)]\<rparr>) = (''C'', Pending)"
proof -
  have k: "(1::nat) \<le> 2" by simp
  have e: "exec (Fin (of_nat 2)) [Fulfil 0] (first_pump (Fin (of_nat 2)) [''A'', ''B'', ''C'']) =
     Some \<lparr>queue = [''C''], active = 2, failures = [],
           jobs = [(''A'', Settling True), (''B'', Pending)]\<rparr>"
    by (simp add: sched_eval)
  have f: "fire (Fin (of_nat 2)) (Finally 0)
     \<lparr>queue = [''C''], active = 2, failures = [],
      jobs = [(''A'', Settling True), (''B'', Pending)]\<rparr> =
     Some \<lparr>queue = [], active = 2, failures = [],
           jobs = [(''A'', Done True), (''B'', Pending), (''C'', Pending)]\<rparr>"
    by (simp add: sched_eval)
  from active_never_exceeds_limit [OF k e] k e f show ?thesis by simp
qed

section \<open>Proofs about the whole run\<close>

lemma run_Exited_drained:
  assumes "startup e argv = Inr (shown, a)"
    and "exec (concurrent a) ts (first_pump (concurrent a) (urls a)) = Some s"
  shows "run e argv ts = (if drained s then Exited (snd (report (failures s))) (fst (report (failures s))) else Waiting s)"
  using assms by (simp add: run_def)

lemma drained_all_done:
  assumes "sched_inv us s" and "drained s"
  shows "map fst (jobs s) = us \<and> (\<forall>j \<in> set (jobs s). \<exists>ok. snd j = Done ok) \<and>
         mset (failures s) = mset (map fst (filter (\<lambda>j. snd j = Done False) (jobs s)))"
proof -
  from assms have q: "queue s = []" and "filter (\<lambda>j. live (snd j)) (jobs s) = []"
    by (auto simp: sched_inv_def drained_def)
  then have d: "\<forall>j \<in> set (jobs s). \<not> live (snd j)"
    by (simp add: filter_empty_conv)
  have d': "\<exists>ok. snd j = Done ok" if "j \<in> set (jobs s)" for j
    using d that by (cases "snd j") (auto simp: live_def)
  have "filter failed_job (jobs s) = filter (\<lambda>j. snd j = Done False) (jobs s)"
    by (rule filter_cong) (use d in \<open>auto simp: failed_job_def live_def\<close>)
  with assms(1) q d' show ?thesis by (auto simp: sched_inv_def)
qed

text \<open>
  Claim C2. In every state of the scheduler, the locators of the jobs started so far,
  in the order they were started, followed by the queue, are the submitted locators:
  each locator leaves the queue once and one job is started for it. When the run has
  ended its drain loop and written its summary, there is one job for each of the N
  locators, each job has its outcome (fulfilled or rejected, \<open>Done ok\<close>), and
  \<open>failures\<close> holds the locators of the rejected jobs.
\<close>

theorem every_locator_gets_one_outcome:
  assumes "startup e argv = Inr (shown, a)"
    and "exec (concurrent a) ts (first_pump (concurrent a) (urls a)) = Some s"
  shows "map fst (jobs s) @ queue s = urls a \<and>
         (\<forall>code lines. run e argv ts = Exited code lines \<longrightarrow>
            map fst (jobs s) = urls a \<and> length (jobs s) = length (urls a) \<and>
            (\<forall>j \<in> set (jobs s). \<exists>ok. snd j = Done ok) \<and>
            mset (failures s) = mset (map fst (filter (\<lambda>j. snd j = Done False) (jobs s))))"
proof -
  have inv: "sched_inv (urls a) s"
    using exec_inv [OF first_pump_inv assms(2)] .
  have "drained s" if "run e argv ts = Exited code lines" for code lines
    using that run_Exited_drained [OF assms] by (simp split: if_splits)
  from drained_all_done [OF inv this] have
    "map fst (jobs s) = urls a \<and> length (jobs s) = length (urls a) \<and>
            (\<forall>j \<in> set (jobs s). \<exists>ok. snd j = Done ok) \<and>
            mset (failures s) = mset (map fst (filter (\<lambda>j. snd j = Done False) (jobs s)))"
    if "run e argv ts = Exited code lines" for code lines
    using that by (metis length_map)
  then show ?thesis using inv unfolding sched_inv_def by blast
qed

lemmas parse_eval = parseArgs_def parse_case_def startsWith_dash_def Number_js_def
  decimal_def digit_val_def initial_args_def startup_def ensureDir_def
  chooseFormatInteractive_def

theorem every_locator_gets_one_outcome_witness:
  "startup example_env [''node'', ''download.mjs'', ''--noPrompt'', ''A'', ''B'', ''C''] =
     Inr ([], initial_args\<lparr>urls := [''A'', ''B'', ''C''], noPrompt := True\<rparr>) \<and>
   exec (Fin 2) [Fulfil 0, Finally 0, Reject 1, Catch 1, Finally 1, Fulfil 2, Finally 2]
     (first_pump (Fin 2) [''A'', ''B'', ''C'']) =
     Some \<lparr>queue = [], active = 0, failures = [''B''],
           jobs = [(''A'', Done True), (''B'', Done False), (''C'', Done True)]\<rparr> \<and>
   run example_env [''node'', ''download.mjs'', ''--noPrompt'', ''A'', ''B'', ''C'']
     [Fulfil 0, Finally 0, Reject 1, Catch 1, Finally 1, Fulfil 2, Finally 2] =
     Exited 2 [CHR 0x0A # ''Completed with 1 failure(s):'', '' - B''] \<and>
   map fst (jobs \<lparr>queue = [], active = 0, failures = [''B''],
           jobs = [(''A'', Done True), (''B'', Done False), (''C'', Done True)]\<rparr>) =
     [''A'', ''B'', ''C'']"
proof -
  let ?argv = "[''node'', ''download.mjs'', ''--noPrompt'', ''A'', ''B'', ''C'']"
  let ?a = "initial_args\<lparr>urls := [''A'', ''B'', ''C''], noPrompt := True\<rparr>"
  let ?ts = "[Fulfil 0, Finally 0, Reject 1, Catch 1, Finally 1, Fulfil 2, Finally 2]"
  let ?s = "\<lparr>queue = [], active = 0, failures = [''B''],
           jobs = [(''A'', Done True), (''B'', Done False), (''C'', Done True)]\<rparr>"
  have c: "concurrent ?a = Fin 2" "urls ?a = [''A'', ''B'', ''C'']"
    by (simp_all add: initial_args_def DEFAULT_CONCURRENCY_def)
  have st: "startup example_env ?argv = Inr ([], ?a)"
    by (simp add: parse_eval example_env_def)
  have ex: "exec (Fin 2) ?ts (first_pump (Fin 2) [''A'', ''B'', ''C'']) = Some ?s"
    by (simp add: sched_eval)
  have ex': "exec (concurrent ?a) ?ts (first_pump (concurrent ?a) (urls ?a)) = Some ?s"
    unfolding c by (rule ex)
  have r: "run example_env ?argv ?ts = Exited 2 [CHR 0x0A # ''Completed with 1 failure(s):'', '' - B'']"
    using run_Exited_drained [OF st ex']
    by (simp add: drained_def report_def show_nat.simps digit_char_def)
  from every_locator_gets_one_outcome [OF st ex'] st ex r show ?thesis by simp
qed

text \<open>
  Claim C6. When the drain loop of a run has ended: if \<open>failures\<close> is not empty, the
  run writes the number of failures and one line for each failed locator, in the order
  of \<open>failures\<close>, and exits with status 2 (the status of a configuration error is 1);
  if it is empty, the run writes the success message and the process ends with status 0.
\<close>

theorem summary_and_exit_status:
  assumes "startup e argv = Inr (shown, a)"
    and "exec (concurrent a) ts (first_pump (concurrent a) (urls a)) = Some s"
    and "drained s"
  shows "run e argv ts =
           (if failures s = [] then
              Exited 0 [CHR 0x0A # ''All downloads completed successfully.'']
            else
              Exited 2 ((CHR 0x0A # ''Completed with '' @ show_nat (length (failures s))
                           @ '' failure(s):'') # map (\<lambda>u. '' - '' @ u) (failures s)))"
  using run_Exited_drained [OF assms(1,2)] assms(3) by (simp add: report_def)

theorem summary_and_exit_status_witness:
  "startup example_env [''node'', ''download.mjs'', ''--noPrompt'', ''--concurrent'', ''1'', ''A'', ''B''] =
     Inr ([], initial_args\<lparr>urls := [''A'', ''B''], concurrent := Fin 1, noPrompt := True\<rparr>) \<and>
   exec (Fin 1) [Reject 0, Catch 0, Finally 0, Fulfil 1, Finally 1] (first_pump (Fin 1) [''A'', ''B'']) =
     Some \<lparr>queue = [], active = 0, failures = [''A''],
           jobs = [(''A'', Done False), (''B'', Done True)]\<rparr> \<and>
   drained \<lparr>queue = [], active = 0, failures = [''A''],
           jobs = [(''A'', Done False), (''B'', Done True)]\<rparr> \<and>
   run example_env [''node'', ''download.mjs'', ''--noPrompt'', ''--concurrent'', ''1'', ''A'', ''B'']
     [Reject 0, Catch 0, Finally 0, Fulfil 1, Finally 1] =
     Exited 2 [CHR 0x0A # ''Completed with 1 failure(s):'', '' - A''] \<and>
   run example_env [''node'', ''download.mjs'', ''--noPrompt'', ''--concurrent'', ''1'', ''A'', ''B'']
     [Fulfil 0, Finally 0, Fulfil 1, Finally 1] =
     Exited 0 [CHR 0x0A # ''All downloads completed successfully.'']"
proof -
  let ?argv = "[''node'', ''download.mjs'', ''--noPrompt'', ''--concurrent'', ''1'', ''A'', ''B'']"
  let ?a = "initial_args\<lparr>urls := [''A'', ''B''], concurrent := Fin 1, noPrompt := True\<rparr>"
  let ?ts = "[Reject 0, Catch 0, Finally 0, Fulfil 1, Finally 1]"
  let ?s = "\<lparr>queue = [], active = 0, failures = [''A''],
           jobs = [(''A'', Done False), (''B'', Done True)]\<rparr>"
  let ?ts2 = "[Fulfil 0, Finally 0, Fulfil 1, Finally 1]"
  let ?s2 = "\<lparr>queue = [], active = 0, failures = [],
           jobs = [(''A'', Done True), (''B'', Done True)]\<rparr>"
  have c: "concurrent ?a = Fin 1" "urls ?a = [''A'', ''B'']"
    by simp_all
  have st: "startup example_env ?argv = Inr ([], ?a)"
    by (simp add: parse_eval example_env_def)
  have ex: "exec (Fin 1) ?ts (first_pump (Fin 1) [''A'', ''B'']) = Some ?s"
    by (simp add: sched_eval)
  have ex': "exec (concurrent ?a) ?ts (first_pump (concurrent ?a) (urls ?a)) = Some ?s"
    unfolding c by (rule ex)
  have ex2: "exec (concurrent ?a) ?ts2 (first_pump (concurrent ?a) (urls ?a)) = Some ?s2"
    unfolding c by (simp add: sched_eval)
  have d: "drained ?s" "drained ?s2" by (simp_all add: drained_def)
  from summary_and_exit_status [OF st ex' d(1)] summary_and_exit_status [OF st ex2 d(2)]
    st ex d(1)
  show ?thesis by (simp add: show_nat.simps digit_char_def)
qed

section \<open>Proofs about downloadOne\<close>

lemma js_le_count: "js_le (of_count i) (Fin (of_nat r)) = (i \<le> int r)"
proof -
  have r: "(of_nat r :: rat) = of_int (int r)" by simp
  have "js_le (of_count i) (Fin (of_nat r)) =
          ((of_int i :: rat) < of_int (int r) \<or> (of_int i :: rat) = of_int (int r))"
    unfolding of_count_def js_le_def r by auto
  also have "\<dots> = (i \<le> int r)" unfolding of_int_less_iff of_int_eq_iff by auto
  finally show ?thesis .
qed

lemma sleeps_append: "sleeps (xs @ ys) = sleeps xs @ sleeps ys"
  by (induction xs rule: sleeps.induct) simp_all

lemma attempts_append: "attempts (xs @ ys) = attempts xs + attempts ys"
  by (simp add: attempts_def)

lemma attempts_simps:
  "attempts [] = 0" "attempts (Downloading u # tr) = Suc (attempts tr)"
  "attempts (OkLine u # tr) = attempts tr" "attempts (ErrorLine u k t # tr) = attempts tr"
  "attempts (ErrorDetail # tr) = attempts tr" "attempts (Sleep ms # tr) = attempts tr"
  by (simp_all add: attempts_def)

lemma failed_attempt_counts:
  "attempts (failed_attempt url a k) = 1" "sleeps (failed_attempt url a k) = []"
  by (simp_all add: failed_attempt_def attempts_simps)

lemma failed_rounds_counts:
  "attempts (failed_rounds url a n k) = k - n"
  "sleeps (failed_rounds url a n k) = map (\<lambda>j. 1500 * j) [n..<k]"
  unfolding failed_rounds_def
  by (induction k) (auto simp: attempts_append sleeps_append failed_attempt_counts attempts_simps)

lemma failed_rounds_step:
  "n < k \<Longrightarrow> failed_rounds url a n k = failed_attempt url a n @ [Sleep (1500 * n)] @ failed_rounds url a (Suc n) k"
  by (simp add: failed_rounds_def upt_conv_Cons)

lemma downloadOne_all_fail:
  assumes "retries a = Fin (of_nat r)" and "ytdlpArgs a = Some d"
    and "\<forall>j. n \<le> j \<and> j \<le> r + 1 \<longrightarrow> \<not> ytdl j" and "n \<le> r + 1"
  shows "downloadOne ytdl url a n out =
           Some (out @ failed_rounds url a n (r + 1) @ failed_attempt url a (r + 1), Rejected)"
  using assms(3,4)
proof (induction "r + 1 - n" arbitrary: n out)
  case 0
  then have n: "n = r + 1" by simp
  have "\<not> ytdl n" using 0(2) n by simp
  then show ?case
    unfolding n
    by (subst downloadOne.simps)
       (simp add: assms(1,2) js_le_count failed_rounds_def failed_attempt_def)
next
  case (Suc m)
  then have n: "n \<le> r" "\<not> ytdl n" by auto
  have IH: "downloadOne ytdl url a (Suc n) out' =
      Some (out' @ failed_rounds url a (Suc n) (r + 1) @ failed_attempt url a (r + 1), Rejected)" for out'
    using Suc(1) [of "Suc n" out'] Suc(2,3) n by auto
  have "n < r + 1" using n by simp
  from failed_rounds_step [OF this] show ?case
    by (subst downloadOne.simps)
       (simp add: assms(1,2) js_le_count n IH failed_attempt_def)
qed

lemma downloadOne_succeeds_at:
  assumes "retries a = Fin (of_nat r)" and "ytdlpArgs a = Some d"
    and "ytdl k" and "\<forall>j. n \<le> j \<and> j < k \<longrightarrow> \<not> ytdl j" and "n \<le> k" and "k \<le> r + 1"
  shows "downloadOne ytdl url a n out =
           Some (out @ failed_rounds url a n k @ [Downloading url, OkLine url], Fulfilled)"
  using assms(4,5)
proof (induction "k - n" arbitrary: n out)
  case 0
  then have n: "n = k" by simp
  show ?case
    unfolding n
    by (subst downloadOne.simps) (simp add: assms(2,3) failed_rounds_def)
next
  case (Suc m)
  then have n: "n < k" "\<not> ytdl n" by auto
  then have nr: "n \<le> r" using assms(6) by simp
  have IH: "downloadOne ytdl url a (Suc n) out' =
      Some (out' @ failed_rounds url a (Suc n) k @ [Downloading url, OkLine url], Fulfilled)" for out'
    using Suc(1) [of "Suc n" out'] Suc(2,3) n by auto
  from failed_rounds_step [OF n(1)] show ?case
    by (subst downloadOne.simps)
       (simp add: assms(1,2) js_le_count n nr IH failed_attempt_def)
qed

text \<open>
  Claim C3. With an integer retry limit \<open>r \<ge> 0\<close> (and an output directory and template
  that are strings, so that the option object is built): if the external call fails on
  each of the attempts 1 to \<open>r + 1\<close>, \<open>downloadOne\<close> calls it \<open>r + 1\<close> times, waits
  1500 ms times the attempt number after each attempt but the last, and is rejected;
  if the call first succeeds on attempt \<open>k \<le> r + 1\<close>, it is called \<open>k\<close> times, with the
  waits 1500, 3000, ... after the first \<open>k - 1\<close> attempts, and \<open>downloadOne\<close> is fulfilled.
\<close>

theorem retry_attempts_and_backoff:
  assumes "retries a = Fin (of_nat r)" and "ytdlpArgs a \<noteq> None"
  shows "((\<forall>j. 1 \<le> j \<and> j \<le> r + 1 \<longrightarrow> \<not> ytdl j) \<longrightarrow>
            (\<exists>tr. downloadOne ytdl url a 1 [] = Some (tr, Rejected) \<and>
                  attempts tr = r + 1 \<and> sleeps tr = map (\<lambda>j. 1500 * j) [1..<r + 1])) \<and>
         (\<forall>k. 1 \<le> k \<and> k \<le> r + 1 \<and> ytdl k \<and> (\<forall>j. 1 \<le> j \<and> j < k \<longrightarrow> \<not> ytdl j) \<longrightarrow>
            (\<exists>tr. downloadOne ytdl url a 1 [] = Some (tr, Fulfilled) \<and>
                  attempts tr = k \<and> sleeps tr = map (\<lambda>j. 1500 * j) [1..<k]))"
proof -
  from assms(2) obtain d where d: "ytdlpArgs a = Some d" by auto
  have A: "\<exists>tr. downloadOne ytdl url a 1 [] = Some (tr, Rejected) \<and>
                  attempts tr = r + 1 \<and> sleeps tr = map (\<lambda>j. 1500 * j) [1..<r + 1]"
    if "\<forall>j. 1 \<le> j \<and> j \<le> r + 1 \<longrightarrow> \<not> ytdl j"
    using downloadOne_all_fail [OF assms(1) d that, of url "[]"]
    by (simp add: attempts_append sleeps_append failed_rounds_counts failed_attempt_counts)
  have B: "\<exists>tr. downloadOne ytdl url a 1 [] = Some (tr, Fulfilled) \<and>
                  attempts tr = k \<and> sleeps tr = map (\<lambda>j. 1500 * j) [1..<k]"
    if "1 \<le> k" "k \<le> r + 1" "ytdl k" "\<forall>j. 1 \<le> j \<and> j < k \<longrightarrow> \<not> ytdl j" for k
    using downloadOne_succeeds_at [OF assms(1) d that(3,4,1,2), of url "[]"] that(1)
    by (auto simp: attempts_append sleeps_append failed_rounds_counts attempts_simps)
  from A B show ?thesis by blast
qed

theorem retry_attempts_and_backoff_witness:
  "retries initial_args = Fin (of_nat 2) \<and> ytdlpArgs initial_args \<noteq> None \<and>
   downloadOne (\<lambda>k. False) ''u'' initial_args 1 [] =
     Some ([Downloading ''u'', ErrorLine ''u'' 1 (Fin 3), Sleep 1500,
            Downloading ''u'', ErrorLine ''u'' 2 (Fin 3), Sleep 3000,
            Downloading ''u'', ErrorLine ''u'' 3 (Fin 3)], Rejected) \<and>
   downloadOne (\<lambda>k. k = 2) ''u'' initial_args 1 [] =
     Some ([Downloading ''u'', ErrorLine ''u'' 1 (Fin 3), Sleep 1500,
            Downloading ''u'', OkLine ''u''], Fulfilled) \<and>
   (\<exists>tr. downloadOne (\<lambda>k. False) ''u'' initial_args 1 [] = Some (tr, Rejected) \<and>
         attempts tr = 2 + 1 \<and> sleeps tr = map (\<lambda>j. 1500 * j) [1..<2 + 1]) \<and>
   (\<exists>tr. downloadOne (\<lambda>k. k = 2) ''u'' initial_args 1 [] = Some (tr, Fulfilled) \<and>
         attempts tr = 2 \<and> sleeps tr = map (\<lambda>j. 1500 * j) [1..<2])"
proof -
  have r: "retries initial_args = Fin (of_nat 2)"
    by (simp add: initial_args_def MAX_RETRIES_def)
  have y: "ytdlpArgs initial_args \<noteq> None"
    by (simp add: initial_args_def ytdlpArgs_def)
  have v: "verbose initial_args = False" "retries initial_args = Fin 2"
    by (simp_all add: initial_args_def MAX_RETRIES_def)
  have d1: "downloadOne (\<lambda>k. False) ''u'' initial_args 1 [] =
     Some ([Downloading ''u'', ErrorLine ''u'' 1 (Fin 3), Sleep 1500,
            Downloading ''u'', ErrorLine ''u'' 2 (Fin 3), Sleep 3000,
            Downloading ''u'', ErrorLine ''u'' 3 (Fin 3)], Rejected)"
    using y by (auto simp: downloadOne.simps v of_count_def js_le_def)
  have d2: "downloadOne (\<lambda>k. k = 2) ''u'' initial_args 1 [] =
     Some ([Downloading ''u'', ErrorLine ''u'' 1 (Fin 3), Sleep 1500,
            Downloading ''u'', OkLine ''u''], Fulfilled)"
    using y by (auto simp: downloadOne.simps v of_count_def js_le_def)
  have A: "\<forall>j. 1 \<le> j \<and> j \<le> 2 + 1 \<longrightarrow> \<not> (\<lambda>k. False) j" by simp
  have B: "1 \<le> (2::nat) \<and> (2::nat) \<le> 2 + 1 \<and> (\<lambda>k. k = (2::nat)) 2 \<and>
           (\<forall>j. 1 \<le> j \<and> j < 2 \<longrightarrow> \<not> (\<lambda>k. k = (2::nat)) j)" by simp
  from retry_attempts_and_backoff [OF r y, of "\<lambda>k. False" "''u''"] A
  have a: "\<exists>tr. downloadOne (\<lambda>k. False) ''u'' initial_args 1 [] = Some (tr, Rejected) \<and>
         attempts tr = 2 + 1 \<and> sleeps tr = map (\<lambda>j. 1500 * j) [1..<2 + 1]" by blast
  from retry_attempts_and_backoff [OF r y, of "\<lambda>k. k = 2" "''u''"] B
  have b: "\<exists>tr. downloadOne (\<lambda>k. k = 2) ''u'' initial_args 1 [] = Some (tr, Fulfilled) \<and>
         attempts tr = 2 \<and> sleeps tr = map (\<lambda>j. 1500 * j) [1..<2]" by blast
  from r y d1 d2 a b show ?thesis by blast
qed

section \<open>Proofs about parseArgs\<close>

lemma takes_value_dash: "takes_value v \<Longrightarrow> startsWith_dash v"
  by (auto simp: takes_value_def value_options_def startsWith_dash_def)

lemma parse_case_rest:
  "parse_case conv v rest a = Inr (a', r) \<Longrightarrow>
     r = (if takes_value v then snd (next_value rest) else rest)"
  unfolding parse_case_def takes_value_def value_options_def
  by (auto split: if_splits)

lemma parse_case_urls:
  "parse_case conv v rest a = Inr (a', r) \<Longrightarrow>
     urls a' = urls a @ (if startsWith_dash v then [] else [v])"
  unfolding parse_case_def
  by (auto simp: startsWith_dash_def split: if_splits)

lemma parse_case_append:
  "(takes_value v \<longrightarrow> rest \<noteq> []) \<Longrightarrow>
     parse_case conv v (rest @ post) a =
       (case parse_case conv v rest a of Inl e \<Rightarrow> Inl e | Inr (a', r) \<Rightarrow> Inr (a', r @ post))"
  unfolding parse_case_def takes_value_def value_options_def
  by (cases rest) auto

lemma parse_case_flags_mono:
  "parse_case conv v rest a = Inr (a', r) \<Longrightarrow>
     (audioOnly a \<longrightarrow> audioOnly a') \<and> (formatProvided a \<longrightarrow> formatProvided a') \<and>
     (noPrompt a \<longrightarrow> noPrompt a')"
  unfolding parse_case_def by (auto split: if_splits)

lemma parse_case_keeps_format:
  "parse_case conv v rest a = Inr (a', r) \<Longrightarrow> v \<noteq> ''--format'' \<Longrightarrow>
     format a' = format a \<and> formatProvided a' = formatProvided a"
  unfolding parse_case_def by (auto split: if_splits)

lemma parse_case_keeps_audio:
  "parse_case conv v rest a = Inr (a', r) \<Longrightarrow> v \<noteq> ''--audio'' \<Longrightarrow> audioOnly a' = audioOnly a"
  unfolding parse_case_def by (auto split: if_splits)

lemma parse_case_Inl:
  "parse_case conv v rest a = Inl x \<Longrightarrow> x = ProcessExit 1 (UnknownOption v)"
  unfolding parse_case_def by (auto split: if_splits)

lemma parse_case_unknown:
  "startsWith_dash v \<Longrightarrow> v \<notin> set value_options \<Longrightarrow> v \<notin> set switch_options \<Longrightarrow>
     parse_case conv v rest a = Inl (ProcessExit 1 (UnknownOption v))"
  unfolding parse_case_def value_options_def switch_options_def by simp

lemma parse_case_format_inv:
  "parse_case conv v rest a = Inr (a', r) \<Longrightarrow> formatProvided a \<or> format a = Null \<Longrightarrow>
     formatProvided a' \<or> format a' = Null"
  unfolding parse_case_def by (auto split: if_splits)

lemma parse_loop_Cons:
  "parse_case conv v rest a = Inr (a', r) \<Longrightarrow> parse_loop conv (v # rest) a = parse_loop conv r a'"
  "parse_case conv v rest a = Inl x \<Longrightarrow> parse_loop conv (v # rest) a = Inl x"
  by simp_all

lemma next_value_set: "set (snd (next_value rest)) \<subseteq> set rest"
  by (cases rest) auto

lemma parse_case_rest_set: "parse_case conv v rest a = Inr (a', r) \<Longrightarrow> set r \<subseteq> set rest"
  using parse_case_rest [of conv v rest a a' r] next_value_set [of rest]
  by (auto split: if_splits)

lemma parse_loop_urls:
  "parse_loop conv xs a = Inr b \<Longrightarrow> urls b = urls a @ positionals xs"
proof (induction conv xs a rule: parse_loop.induct)
  case (1 conv a)
  then show ?case by simp
next
  case (2 conv v rest a)
  from 2(2) obtain a' r where pc: "parse_case conv v rest a = Inr (a', r)"
    and pl: "parse_loop conv r a' = Inr b"
    by (auto split: sum.splits)
  note u = parse_case_urls [OF pc] and r = parse_case_rest [OF pc]
  have IH: "urls b = urls a' @ positionals r" using 2(1) [OF pc refl pl] .
  show ?case
  proof (cases rest)
    case Nil
    then show ?thesis using IH u r takes_value_dash [of v] by (auto split: if_splits)
  next
    case (Cons w rest')
    then show ?thesis using IH u r takes_value_dash [of v] by (auto split: if_splits)
  qed
qed

lemma parse_loop_append:
  "aligned pre \<Longrightarrow>
     parse_loop conv (pre @ post) a =
       (case parse_loop conv pre a of Inl x \<Rightarrow> Inl x | Inr a1 \<Rightarrow> parse_loop conv post a1)"
proof (induction pre arbitrary: a rule: aligned.induct)
  case 1
  then show ?case by simp
next
  case (2 v)
  then have nv: "\<not> takes_value v" by simp
  then have "takes_value v \<longrightarrow> ([]::string list) \<noteq> []" by simp
  note ap = parse_case_append [OF this, of conv post a]
  show ?case
  proof (cases "parse_case conv v [] a")
    case (Inl x)
    then show ?thesis using ap by simp
  next
    case (Inr p)
    obtain a' r where p: "p = (a', r)" by (cases p)
    from parse_case_rest [OF Inr [unfolded p]] nv have "r = []" by simp
    then show ?thesis using ap Inr p by simp
  qed
next
  case (3 v w rest)
  have nv: "takes_value v \<longrightarrow> w # rest \<noteq> []" by simp
  note ap = parse_case_append [OF nv, of conv post a]
  show ?case
  proof (cases "parse_case conv v (w # rest) a")
    case (Inl x)
    then show ?thesis using ap by simp
  next
    case (Inr p)
    obtain a' r where p: "p = (a', r)" by (cases p)
    note r = parse_case_rest [OF Inr [unfolded p]]
    show ?thesis
    proof (cases "takes_value v")
      case True
      then have "r = rest" using r by simp
      then show ?thesis using ap Inr p 3(1) [OF True, of a'] 3(3) True by simp
    next
      case False
      then have "r = w # rest" using r by simp
      then show ?thesis using ap Inr p 3(2) [OF False, of a'] 3(3) False by simp
    qed
  qed
qed

lemma parse_loop_flags_mono:
  "parse_loop conv xs a = Inr b \<Longrightarrow>
     (audioOnly a \<longrightarrow> audioOnly b) \<and> (formatProvided a \<longrightarrow> formatProvided b) \<and>
     (noPrompt a \<longrightarrow> noPrompt b)"
proof (induction conv xs a rule: parse_loop.induct)
  case (1 conv a)
  then show ?case by simp
next
  case (2 conv v rest a)
  from 2(2) obtain a' r where pc: "parse_case conv v rest a = Inr (a', r)"
    and pl: "parse_loop conv r a' = Inr b"
    by (auto split: sum.splits)
  from 2(1) [OF pc refl pl] parse_case_flags_mono [OF pc] show ?case by blast
qed

lemma parse_loop_keeps_format:
  "parse_loop conv xs a = Inr b \<Longrightarrow> ''--format'' \<notin> set xs \<Longrightarrow>
     format b = format a \<and> formatProvided b = formatProvided a"
proof (induction conv xs a rule: parse_loop.induct)
  case (1 conv a)
  then show ?case by simp
next
  case (2 conv v rest a)
  from 2(2) obtain a' r where pc: "parse_case conv v rest a = Inr (a', r)"
    and pl: "parse_loop conv r a' = Inr b"
    by (auto split: sum.splits)
  have "''--format'' \<notin> set r" using parse_case_rest_set [OF pc] 2(3) by auto
  from 2(1) [OF pc refl pl this] parse_case_keeps_format [OF pc] 2(3) show ?case by auto
qed

lemma parse_loop_keeps_audio:
  "parse_loop conv xs a = Inr b \<Longrightarrow> ''--audio'' \<notin> set xs \<Longrightarrow> audioOnly b = audioOnly a"
proof (induction conv xs a rule: parse_loop.induct)
  case (1 conv a)
  then show ?case by simp
next
  case (2 conv v rest a)
  from 2(2) obtain a' r where pc: "parse_case conv v rest a = Inr (a', r)"
    and pl: "parse_loop conv r a' = Inr b"
    by (auto split: sum.splits)
  have "''--audio'' \<notin> set r" using parse_case_rest_set [OF pc] 2(3) by auto
  from 2(1) [OF pc refl pl this] parse_case_keeps_audio [OF pc] 2(3) show ?case by auto
qed

lemma parse_loop_format_inv:
  "parse_loop conv xs a = Inr b \<Longrightarrow> formatProvided a \<or> format a = Null \<Longrightarrow>
     formatProvided b \<or> format b = Null"
proof (induction conv xs a rule: parse_loop.induct)
  case (1 conv a)
  then show ?case by simp
next
  case (2 conv v rest a)
  from 2(2) obtain a' r where pc: "parse_case conv v rest a = Inr (a', r)"
    and pl: "parse_loop conv r a' = Inr b"
    by (auto split: sum.splits)
  from 2(1) [OF pc refl pl parse_case_format_inv [OF pc 2(3)]] show ?case .
qed

lemma parse_loop_Inl:
  "parse_loop conv xs a = Inl x \<Longrightarrow> \<exists>m. x = ProcessExit 1 (UnknownOption m)"
proof (induction conv xs a rule: parse_loop.induct)
  case (1 conv a)
  then show ?case by simp
next
  case (2 conv v rest a)
  show ?case
  proof (cases "parse_case conv v rest a")
    case (Inl y)
    then show ?thesis using 2(2) parse_case_Inl [OF Inl] by auto
  next
    case (Inr p)
    obtain a' r where p: "p = (a', r)" by (cases p)
    from 2(1) [OF Inr [unfolded p] refl] 2(2) Inr p show ?thesis by simp
  qed
qed

text \<open>What parseArgs adds to the result of the loop: only locators.\<close>

lemma parseArgs_Inr:
  assumes "parseArgs conv rf argv = Inr a"
  shows "\<exists>a1. parse_loop conv (drop 2 argv) initial_args = Inr a1 \<and> a = a1\<lparr>urls := urls a\<rparr> \<and>
           urls a \<noteq> [] \<and>
           (if truthy (fromFile a1) then
              (\<exists>path data. fromFile a1 = Str path \<and> rf path = Some data \<and>
                 urls a = urls a1 @ batch_lines data)
            else urls a = urls a1)"
  using assms unfolding parseArgs_def
  by (auto split: sum.splits if_splits jsval.splits option.splits)

lemma trim_empty_iff: "(trim l = []) = blank l"
proof
  assume "trim l = []"
  then have all: "\<forall>x \<in> set (dropWhile is_ws l). is_ws x"
    by (simp add: trim_def dropWhile_eq_Nil_conv)
  have "dropWhile is_ws l = []"
  proof (rule ccontr)
    assume ne: "dropWhile is_ws l \<noteq> []"
    then have "\<not> is_ws (hd (dropWhile is_ws l))" by (rule hd_dropWhile)
    moreover have "hd (dropWhile is_ws l) \<in> set (dropWhile is_ws l)" using ne by simp
    ultimately show False using all by blast
  qed
  then show "blank l" by (simp add: blank_def dropWhile_eq_Nil_conv list_all_iff)
next
  assume "blank l"
  then have d: "dropWhile is_ws l = []" by (simp add: blank_def dropWhile_eq_Nil_conv list_all_iff)
  show "trim l = []" unfolding trim_def d by simp
qed

lemma batch_lines_nonblank:
  "batch_lines data = map trim (filter (\<lambda>l. \<not> blank l) (split_lines [] data))"
  by (simp add: batch_lines_def filter_map comp_def trim_empty_iff)

text \<open>
  Claim C9. When \<open>parseArgs\<close> returns, the locators are the positional arguments in
  their order, followed by the lines of the batch file in their order, each trimmed,
  the blank lines left out. Nothing is removed from either part, so a locator given
  twice is kept twice.
\<close>

theorem locators_arguments_then_file:
  assumes "parseArgs conv rf argv = Inr a"
  shows "\<exists>batch. urls a = positionals (drop 2 argv) @ batch \<and>
           (\<not> truthy (fromFile a) \<longrightarrow> batch = []) \<and>
           (\<forall>path data. fromFile a = Str path \<and> path \<noteq> [] \<and> rf path = Some data \<longrightarrow>
              batch = map trim (filter (\<lambda>l. \<not> blank l) (split_lines [] data)))"
proof -
  from parseArgs_Inr [OF assms] obtain a1 where
    pl: "parse_loop conv (drop 2 argv) initial_args = Inr a1" and a: "a = a1\<lparr>urls := urls a\<rparr>"
    and f: "if truthy (fromFile a1) then
              (\<exists>path data. fromFile a1 = Str path \<and> rf path = Some data \<and>
                 urls a = urls a1 @ batch_lines data)
            else urls a = urls a1"
    by blast
  have u1: "urls a1 = positionals (drop 2 argv)"
    using parse_loop_urls [OF pl] by (simp add: initial_args_def)
  have ff: "fromFile a = fromFile a1" by (subst a) simp
  show ?thesis
  proof (cases "truthy (fromFile a1)")
    case True
    with f obtain path data where p: "fromFile a1 = Str path" "rf path = Some data"
      "urls a = urls a1 @ batch_lines data" by auto
    show ?thesis
      by (rule exI [of _ "batch_lines data"])
         (use p True u1 ff in \<open>auto simp: batch_lines_nonblank\<close>)
  next
    case False
    with f have "urls a = urls a1" by simp
    then show ?thesis
      by (intro exI [of _ "[]"]) (use False u1 ff in auto)
  qed
qed

theorem locators_arguments_then_file_witness:
  "parseArgs decimal example_file
     [''node'', ''download.mjs'', ''A'', ''--fromFile'', ''list.txt'', ''A'', ''--subs'', ''B''] =
     Inr (initial_args\<lparr>urls := [''A'', ''A'', ''B'', ''A'', ''C'', ''A''], subs := True,
                        fromFile := Str ''list.txt''\<rparr>) \<and>
   positionals (drop 2 [''node'', ''download.mjs'', ''A'', ''--fromFile'', ''list.txt'', ''A'', ''--subs'', ''B'']) =
     [''A'', ''A'', ''B''] \<and>
   map trim (filter (\<lambda>l. \<not> blank l)
     (split_lines [] (''A'' @ [CHR 0x0D, CHR 0x0A, CHR 0x0A] @ ''  C '' @ [CHR 0x0A] @ ''A''))) =
     [''A'', ''C'', ''A''] \<and>
   (\<exists>batch. [''A'', ''A'', ''B'', ''A'', ''C'', ''A''] = [''A'', ''A'', ''B''] @ batch)"
proof -
  let ?argv = "[''node'', ''download.mjs'', ''A'', ''--fromFile'', ''list.txt'', ''A'', ''--subs'', ''B'']"
  let ?a = "initial_args\<lparr>urls := [''A'', ''A'', ''B'', ''A'', ''C'', ''A''], subs := True,
                        fromFile := Str ''list.txt''\<rparr>"
  have p: "parseArgs decimal example_file ?argv = Inr ?a"
    by (simp add: parse_eval example_file_def batch_lines_def trim_def is_ws_def)
  have q: "positionals (drop 2 ?argv) = [''A'', ''A'', ''B'']"
    by (simp add: takes_value_def value_options_def startsWith_dash_def)
  have b: "map trim (filter (\<lambda>l. \<not> blank l)
     (split_lines [] (''A'' @ [CHR 0x0D, CHR 0x0A, CHR 0x0A] @ ''  C '' @ [CHR 0x0A] @ ''A''))) =
     [''A'', ''C'', ''A'']"
    by (simp add: blank_def trim_def is_ws_def)
  from locators_arguments_then_file [OF p] obtain batch where
    "urls ?a = positionals (drop 2 ?argv) @ batch" by blast
  then have "\<exists>batch. [''A'', ''A'', ''B'', ''A'', ''C'', ''A''] = [''A'', ''A'', ''B''] @ batch"
    unfolding q by simp
  with p q b show ?thesis by blast
qed

lemma lookup_if:
  "map_of (if b then xs else ys) k = (if b then map_of xs k else map_of ys k)"
  by simp

lemma lookup_append:
  "map_of (xs @ ys) k = (case map_of xs k of None \<Rightarrow> map_of ys k | Some v \<Rightarrow> Some v)"
  by (simp add: map_add_def split: option.splits)

lemma ytdlp_geo:
  assumes "ytdlpArgs a = Some d"
  shows "map_of d ''geoBypass'' = (if geoBypass a then Some (VBool True) else None)"
    and "map_of d ''noGeoBypass'' = (if geoBypass a then None else Some (VBool True))"
    and "map_of d ''geoBypassCountry'' =
           (if truthy (geoBypassCountry a) then Some (VVal (geoBypassCountry a)) else None)"
  using assms unfolding ytdlpArgs_def when_set_def
  by (auto simp: lookup_append lookup_if split: jsval.splits)

section \<open>Proofs about the option object and the prompt\<close>

lemma ytdlp_playlist:
  assumes "ytdlpArgs a = Some d"
  shows "map_of d ''yes-playlist'' = (if playlist a then Some (VBool True) else None)"
    and "map_of d ''no-playlist'' = (if playlist a then None else Some (VBool True))"
  using assms unfolding ytdlpArgs_def when_set_def
  by (auto simp: lookup_append lookup_if split: jsval.splits)

lemma ytdlp_update:
  assumes "ytdlpArgs a = Some d"
  shows "map_of d ''update'' = (if update a then Some (VBool True) else None)"
    and "map_of d ''no-update'' = (if update a then None else Some (VBool True))"
  using assms unfolding ytdlpArgs_def when_set_def
  by (auto simp: lookup_append lookup_if split: jsval.splits)

lemma ytdlp_selector:
  assumes "ytdlpArgs a = Some d"
  shows "map_of d ''format'' = (if audioOnly a then None else Some (VStr (format_or_fallback a)))"
    and "map_of d ''extractAudio'' = (if audioOnly a then Some (VBool True) else None)"
    and "map_of d ''audioFormat'' = (if audioOnly a then Some (VVal (audioFormat a)) else None)"
    and "map_of d ''audioQuality'' = (if audioOnly a then Some (VStr ''0'') else None)"
  using assms unfolding ytdlpArgs_def when_set_def
  by (auto simp: lookup_append lookup_if split: jsval.splits)

text \<open>
  Claim C7, as amended. The option object holds exactly one of \<open>geoBypass\<close> (when the
  flag is on, as it is unless \<open>--noGeoBypass\<close> is given) and \<open>noGeoBypass\<close>, never
  both. It holds \<open>geoBypassCountry\<close> exactly when a non-empty country code was given,
  whichever of the two flags is present. It holds exactly one of \<open>yes-playlist\<close> and
  \<open>no-playlist\<close>, one of \<open>update\<close> and \<open>no-update\<close>, and one of \<open>format\<close> and
  \<open>extractAudio\<close>.
\<close>

theorem geo_bypass_fields:
  assumes "ytdlpArgs a = Some d"
  shows "map_of d ''geoBypass'' = (if geoBypass a then Some (VBool True) else None) \<and>
         map_of d ''noGeoBypass'' = (if geoBypass a then None else Some (VBool True)) \<and>
         map_of d ''geoBypassCountry'' =
           (if truthy (geoBypassCountry a) then Some (VVal (geoBypassCountry a)) else None) \<and>
         (map_of d ''geoBypass'' = None) \<noteq> (map_of d ''noGeoBypass'' = None) \<and>
         (map_of d ''yes-playlist'' = None) \<noteq> (map_of d ''no-playlist'' = None) \<and>
         (map_of d ''update'' = None) \<noteq> (map_of d ''no-update'' = None) \<and>
         (map_of d ''format'' = None) \<noteq> (map_of d ''extractAudio'' = None)"
  using ytdlp_geo [OF assms] ytdlp_playlist [OF assms] ytdlp_update [OF assms]
    ytdlp_selector(1,2) [OF assms]
  by simp

text \<open>
  Claim C7 as first stated fails: after \<open>--geo AU u\<close> the option object holds both
  the enable flag \<open>geoBypass\<close> and the country code.
\<close>

theorem geo_bypass_both_counterexample:
  "parseArgs decimal (\<lambda>p. None) [''node'', ''download.mjs'', ''--geo'', ''AU'', ''u''] =
     Inr (initial_args\<lparr>urls := [''u''], geoBypassCountry := Str ''AU''\<rparr>) \<and>
   ytdlpArgs (initial_args\<lparr>urls := [''u''], geoBypassCountry := Str ''AU''\<rparr>) = Some geo_descriptor \<and>
   map_of geo_descriptor ''geoBypass'' = Some (VBool True) \<and>
   map_of geo_descriptor ''geoBypassCountry'' = Some (VVal (Str ''AU''))"
  by (simp add: parse_eval ytdlpArgs_def when_set_def format_or_fallback_def geo_descriptor_def)

theorem geo_bypass_fields_witness:
  "ytdlpArgs (initial_args\<lparr>urls := [''u''], geoBypassCountry := Str ''AU''\<rparr>) = Some geo_descriptor \<and>
   map_of geo_descriptor ''geoBypass'' = Some (VBool True) \<and>
   map_of geo_descriptor ''noGeoBypass'' = None \<and>
   map_of geo_descriptor ''geoBypassCountry'' = Some (VVal (Str ''AU'')) \<and>
   map_of geo_descriptor ''no-playlist'' = None \<and> map_of geo_descriptor ''update'' = None"
proof -
  have y: "ytdlpArgs (initial_args\<lparr>urls := [''u''], geoBypassCountry := Str ''AU''\<rparr>) = Some geo_descriptor"
    by (simp add: ytdlpArgs_def when_set_def format_or_fallback_def geo_descriptor_def initial_args_def)
  from geo_bypass_fields [OF y] y show ?thesis
    by (simp add: initial_args_def geo_descriptor_def)
qed

lemma aligned_append: "aligned xs \<Longrightarrow> aligned ys \<Longrightarrow> aligned (xs @ ys)"
proof (induction xs rule: aligned.induct)
  case 1
  then show ?case by simp
next
  case (2 v)
  then show ?case by (cases ys) simp_all
next
  case (3 v w rest)
  then show ?case by (cases "rest @ ys") (auto split: if_splits)
qed

lemma aligned_switch: "\<not> takes_value v \<Longrightarrow> aligned (v # xs) = aligned xs"
  by (cases xs) simp_all

lemma aligned_value: "takes_value v \<Longrightarrow> aligned (v # w # xs) = aligned xs"
  by simp

lemma seen_audio:
  assumes "aligned pre" and "parse_loop conv (pre @ ''--audio'' # post) a0 = Inr b"
  shows "audioOnly b"
proof -
  from assms obtain a1 where "parse_loop conv (''--audio'' # post) a1 = Inr b"
    by (auto simp: parse_loop_append split: sum.splits)
  then have "parse_loop conv post (a1\<lparr>audioOnly := True\<rparr>) = Inr b"
    by (simp add: parse_case_def)
  from parse_loop_flags_mono [OF this] show ?thesis by simp
qed

lemma seen_noPrompt:
  assumes "aligned pre" and "parse_loop conv (pre @ ''--noPrompt'' # post) a0 = Inr b"
  shows "noPrompt b"
proof -
  from assms obtain a1 where "parse_loop conv (''--noPrompt'' # post) a1 = Inr b"
    by (auto simp: parse_loop_append split: sum.splits)
  then have "parse_loop conv post (a1\<lparr>noPrompt := True\<rparr>) = Inr b"
    by (simp add: parse_case_def)
  from parse_loop_flags_mono [OF this] show ?thesis by simp
qed

lemma seen_format:
  assumes "aligned pre" and "parse_loop conv (pre @ ''--format'' # X # post) a0 = Inr b"
  shows "formatProvided b \<and> (''--format'' \<notin> set post \<longrightarrow> format b = Str X)"
proof -
  from assms obtain a1 where "parse_loop conv (''--format'' # X # post) a1 = Inr b"
    by (auto simp: parse_loop_append split: sum.splits)
  then have p: "parse_loop conv post (a1\<lparr>format := Str X, formatProvided := True\<rparr>) = Inr b"
    by (simp add: parse_case_def)
  from parse_loop_flags_mono [OF p] parse_loop_keeps_format [OF p] show ?thesis by simp
qed

lemma parseArgs_fields:
  assumes "parseArgs conv rf (node # script # xs) = Inr a"
  obtains a1 where "parse_loop conv xs initial_args = Inr a1"
    and "audioOnly a = audioOnly a1" and "formatProvided a = formatProvided a1"
    and "noPrompt a = noPrompt a1" and "format a = format a1"
proof -
  from parseArgs_Inr [OF assms] obtain a1 where
    pl: "parse_loop conv xs initial_args = Inr a1" and a: "a = a1\<lparr>urls := urls a\<rparr>"
    by auto
  have "audioOnly a = audioOnly a1" "formatProvided a = formatProvided a1"
    "noPrompt a = noPrompt a1" "format a = format a1"
    by (subst a, simp)+
  with pl that show thesis by blast
qed

lemma no_prompt_when:
  "noPrompt a \<or> formatProvided a \<or> audioOnly a \<Longrightarrow> chooseFormatInteractive ans a = ([], a)"
  by (simp add: chooseFormatInteractive_def)

text \<open>
  Claim C8. When \<open>--audio\<close> and \<open>--format X\<close> are both given, in either order, nothing
  is asked and the option object of every job holds the audio extraction fields
  (\<open>extractAudio\<close>, \<open>audioFormat\<close>, \<open>audioQuality\<close>) and no \<open>format\<close>.
\<close>

theorem audio_precedes_format:
  assumes "aligned pre" and "aligned mid"
    and "argv = node # script # pre @ ''--audio'' # mid @ ''--format'' # X # post \<or>
         argv = node # script # pre @ ''--format'' # X # mid @ ''--audio'' # post"
    and "parseArgs conv rf argv = Inr a"
    and "ytdlpArgs (snd (chooseFormatInteractive ans a)) = Some d"
  shows "audioOnly a \<and> formatProvided a \<and> chooseFormatInteractive ans a = ([], a) \<and>
         map_of d ''extractAudio'' = Some (VBool True) \<and>
         map_of d ''audioFormat'' = Some (VVal (audioFormat a)) \<and>
         map_of d ''audioQuality'' = Some (VStr ''0'') \<and>
         map_of d ''format'' = None"
proof -
  have both: "audioOnly a \<and> formatProvided a"
  proof -
    from assms(3) show ?thesis
    proof
      assume argv: "argv = node # script # pre @ ''--audio'' # mid @ ''--format'' # X # post"
      from assms(4) [unfolded argv] obtain a1 where
        pl: "parse_loop conv (pre @ ''--audio'' # mid @ ''--format'' # X # post) initial_args = Inr a1"
        and f: "audioOnly a = audioOnly a1" "formatProvided a = formatProvided a1"
        by (rule parseArgs_fields)
      have al: "aligned (pre @ ''--audio'' # mid)"
        using assms(1,2)
        by (intro aligned_append) (simp_all add: aligned_switch takes_value_def value_options_def)
      have pl': "parse_loop conv ((pre @ ''--audio'' # mid) @ ''--format'' # X # post) initial_args = Inr a1"
        using pl by simp
      from seen_audio [OF assms(1) pl] seen_format [OF al pl'] f show ?thesis by simp
    next
      assume argv: "argv = node # script # pre @ ''--format'' # X # mid @ ''--audio'' # post"
      from assms(4) [unfolded argv] obtain a1 where
        pl: "parse_loop conv (pre @ ''--format'' # X # mid @ ''--audio'' # post) initial_args = Inr a1"
        and f: "audioOnly a = audioOnly a1" "formatProvided a = formatProvided a1"
        by (rule parseArgs_fields)
      have al: "aligned (pre @ ''--format'' # X # mid)"
        using assms(1,2) by (intro aligned_append) (simp_all add: takes_value_def value_options_def)
      have pl': "parse_loop conv ((pre @ ''--format'' # X # mid) @ ''--audio'' # post) initial_args = Inr a1"
        using pl by simp
      from seen_format [OF assms(1) pl] seen_audio [OF al pl'] f show ?thesis by simp
    qed
  qed
  then have c: "chooseFormatInteractive ans a = ([], a)" by (simp add: no_prompt_when)
  with assms(5) have d: "ytdlpArgs a = Some d" by simp
  from ytdlp_selector [OF d] both c show ?thesis by simp
qed

theorem audio_precedes_format_witness:
  "aligned [] \<and> aligned [''u''] \<and>
   parseArgs decimal (\<lambda>p. None) [''node'', ''download.mjs'', ''--audio'', ''u'', ''--format'', ''best''] =
     Inr (initial_args\<lparr>urls := [''u''], audioOnly := True, format := Str ''best'',
                        formatProvided := True\<rparr>) \<and>
   ytdlpArgs (snd (chooseFormatInteractive []
       (initial_args\<lparr>urls := [''u''], audioOnly := True, format := Str ''best'',
                      formatProvided := True\<rparr>))) = Some audio_descriptor \<and>
   map_of audio_descriptor ''extractAudio'' = Some (VBool True) \<and>
   map_of audio_descriptor ''audioFormat'' = Some (VVal (Str ''m4a'')) \<and>
   map_of audio_descriptor ''audioQuality'' = Some (VStr ''0'') \<and>
   map_of audio_descriptor ''format'' = None"
proof -
  let ?argv = "[''node'', ''download.mjs'', ''--audio'', ''u'', ''--format'', ''best'']"
  let ?a = "initial_args\<lparr>urls := [''u''], audioOnly := True, format := Str ''best'',
                        formatProvided := True\<rparr>"
  have al: "aligned []" "aligned [''u'']"
    by (simp_all add: takes_value_def value_options_def)
  have shape: "?argv = ''node'' # ''download.mjs'' # [] @ ''--audio'' # [''u''] @ ''--format'' # ''best'' # [] \<or>
               ?argv = ''node'' # ''download.mjs'' # [] @ ''--format'' # ''best'' # [''u''] @ ''--audio'' # []"
    by simp
  have p: "parseArgs decimal (\<lambda>p. None) ?argv = Inr ?a"
    by (simp add: parse_eval)
  have y: "ytdlpArgs (snd (chooseFormatInteractive [] ?a)) = Some audio_descriptor"
    by (simp add: chooseFormatInteractive_def ytdlpArgs_def when_set_def initial_args_def
        audio_descriptor_def)
  from audio_precedes_format [OF al shape p y] al p y show ?thesis
    by (simp add: initial_args_def)
qed

text \<open>
  Claim C5. After \<open>--audio\<close> in option position nothing is asked. After \<open>--format X\<close>
  nothing is asked and, \<open>X\<close> being the value of the last \<open>--format\<close>, the resolved
  configuration has the selector \<open>X\<close> (which the option object carries when \<open>X\<close> is
  not empty and audio-only is off). After \<open>--noPrompt\<close> with neither \<open>--format\<close> nor
  \<open>--audio\<close> nothing is asked and the option object carries the 1080p fallback selector.
\<close>

theorem prompt_bypassed:
  assumes "aligned pre"
  shows "(parseArgs conv rf (node # script # pre @ ''--audio'' # post) = Inr a \<longrightarrow>
            chooseFormatInteractive ans a = ([], a)) \<and>
         (parseArgs conv rf (node # script # pre @ ''--format'' # X # post) = Inr a \<longrightarrow>
            chooseFormatInteractive ans a = ([], a) \<and>
            (''--format'' \<notin> set post \<longrightarrow>
               format a = Str X \<and>
               (\<forall>d. \<not> audioOnly a \<and> X \<noteq> [] \<and> ytdlpArgs a = Some d \<longrightarrow>
                  map_of d ''format'' = Some (VStr X)))) \<and>
         (parseArgs conv rf (node # script # pre @ ''--noPrompt'' # post) = Inr a \<and>
          ''--format'' \<notin> set (pre @ post) \<and> ''--audio'' \<notin> set (pre @ post) \<longrightarrow>
            chooseFormatInteractive ans a = ([], a) \<and>
            (\<forall>d. ytdlpArgs a = Some d \<longrightarrow>
               map_of d ''format'' = Some (VStr DEFAULT_FORMAT_FALLBACK)))"
proof (intro conjI impI)
  assume p: "parseArgs conv rf (node # script # pre @ ''--audio'' # post) = Inr a"
  then obtain a1 where "parse_loop conv (pre @ ''--audio'' # post) initial_args = Inr a1"
    and "audioOnly a = audioOnly a1"
    by (rule parseArgs_fields)
  with seen_audio [OF assms] have "audioOnly a" by simp
  then show "chooseFormatInteractive ans a = ([], a)" by (simp add: no_prompt_when)
next
  assume p: "parseArgs conv rf (node # script # pre @ ''--format'' # X # post) = Inr a"
  then obtain a1 where pl: "parse_loop conv (pre @ ''--format'' # X # post) initial_args = Inr a1"
    and f: "formatProvided a = formatProvided a1" "format a = format a1"
    by (rule parseArgs_fields)
  note s = seen_format [OF assms pl]
  from s f show "chooseFormatInteractive ans a = ([], a)" by (simp add: no_prompt_when)
  assume "''--format'' \<notin> set post"
  with s f show fx: "format a = Str X" by simp
  show "\<forall>d. \<not> audioOnly a \<and> X \<noteq> [] \<and> ytdlpArgs a = Some d \<longrightarrow>
                  map_of d ''format'' = Some (VStr X)"
    using fx by (auto simp: ytdlp_selector(1) format_or_fallback_def)
next
  assume h: "parseArgs conv rf (node # script # pre @ ''--noPrompt'' # post) = Inr a \<and>
          ''--format'' \<notin> set (pre @ post) \<and> ''--audio'' \<notin> set (pre @ post)"
  then obtain a1 where pl: "parse_loop conv (pre @ ''--noPrompt'' # post) initial_args = Inr a1"
    and f: "formatProvided a = formatProvided a1" "format a = format a1"
      "audioOnly a = audioOnly a1" "noPrompt a = noPrompt a1"
    by (auto elim: parseArgs_fields)
  from seen_noPrompt [OF assms pl] f show "chooseFormatInteractive ans a = ([], a)"
    by (simp add: no_prompt_when)
  have nf: "''--format'' \<notin> set (pre @ ''--noPrompt'' # post)"
    and na: "''--audio'' \<notin> set (pre @ ''--noPrompt'' # post)"
    using h by auto
  from parse_loop_keeps_format [OF pl nf] parse_loop_keeps_audio [OF pl na] f
  have "format a = Null" "\<not> audioOnly a" by (simp_all add: initial_args_def)
  then show "\<forall>d. ytdlpArgs a = Some d \<longrightarrow>
               map_of d ''format'' = Some (VStr DEFAULT_FORMAT_FALLBACK)"
    by (auto simp: ytdlp_selector(1) format_or_fallback_def)
qed

theorem prompt_bypassed_witness:
  "aligned [] \<and> aligned [''--subs''] \<and> aligned [''u''] \<and>
   parseArgs decimal (\<lambda>p. None) [''node'', ''download.mjs'', ''--audio'', ''u''] =
     Inr (initial_args\<lparr>urls := [''u''], audioOnly := True\<rparr>) \<and>
   chooseFormatInteractive ''2'' (initial_args\<lparr>urls := [''u''], audioOnly := True\<rparr>) =
     ([], initial_args\<lparr>urls := [''u''], audioOnly := True\<rparr>) \<and>
   parseArgs decimal (\<lambda>p. None) [''node'', ''download.mjs'', ''--subs'', ''--format'', ''best'', ''u''] =
     Inr (initial_args\<lparr>urls := [''u''], subs := True, format := Str ''best'',
                        formatProvided := True\<rparr>) \<and>
   chooseFormatInteractive ''2''
     (initial_args\<lparr>urls := [''u''], subs := True, format := Str ''best'', formatProvided := True\<rparr>) =
     ([], initial_args\<lparr>urls := [''u''], subs := True, format := Str ''best'',
                         formatProvided := True\<rparr>) \<and>
   (\<exists>d. ytdlpArgs (initial_args\<lparr>urls := [''u''], subs := True, format := Str ''best'',
                                formatProvided := True\<rparr>) = Some d \<and>
        map_of d ''format'' = Some (VStr ''best'')) \<and>
   parseArgs decimal (\<lambda>p. None) [''node'', ''download.mjs'', ''u'', ''--noPrompt''] =
     Inr (initial_args\<lparr>urls := [''u''], noPrompt := True\<rparr>) \<and>
   chooseFormatInteractive ''2'' (initial_args\<lparr>urls := [''u''], noPrompt := True\<rparr>) =
     ([], initial_args\<lparr>urls := [''u''], noPrompt := True\<rparr>) \<and>
   (\<exists>d. ytdlpArgs (initial_args\<lparr>urls := [''u''], noPrompt := True\<rparr>) = Some d \<and>
        map_of d ''format'' = Some (VStr DEFAULT_FORMAT_FALLBACK))"
proof -
  let ?a1 = "initial_args\<lparr>urls := [''u''], audioOnly := True\<rparr>"
  let ?a2 = "initial_args\<lparr>urls := [''u''], subs := True, format := Str ''best'',
                        formatProvided := True\<rparr>"
  let ?a3 = "initial_args\<lparr>urls := [''u''], noPrompt := True\<rparr>"
  have al: "aligned []" "aligned [''--subs'']" "aligned [''u'']"
    by (simp_all add: takes_value_def value_options_def)
  have p1: "parseArgs decimal (\<lambda>p. None) (''node'' # ''download.mjs'' # [] @ ''--audio'' # [''u'']) = Inr ?a1"
    by (simp add: parse_eval)
  have p2: "parseArgs decimal (\<lambda>p. None)
      (''node'' # ''download.mjs'' # [''--subs''] @ ''--format'' # ''best'' # [''u'']) = Inr ?a2"
    by (simp add: parse_eval)
  have p3: "parseArgs decimal (\<lambda>p. None) (''node'' # ''download.mjs'' # [''u''] @ ''--noPrompt'' # []) = Inr ?a3"
    by (simp add: parse_eval)
  have y2: "\<exists>d. ytdlpArgs ?a2 = Some d" and y3: "\<exists>d. ytdlpArgs ?a3 = Some d"
    by (simp_all add: ytdlpArgs_def initial_args_def)
  have n2: "''--format'' \<notin> set [''u'']" "\<not> audioOnly ?a2" "''best'' \<noteq> []"
    by (simp_all add: initial_args_def)
  have n3: "''--format'' \<notin> set ([''u''] @ [])" "''--audio'' \<notin> set ([''u''] @ [])"
    by simp_all
  from prompt_bypassed [OF al(1), where conv = decimal and rf = "\<lambda>p. None" and node = "''node''"
      and script = "''download.mjs''" and post = "[''u'']" and a = ?a1 and ans = "''2''"] p1
  have c1: "chooseFormatInteractive ''2'' ?a1 = ([], ?a1)" by blast
  from prompt_bypassed [OF al(2), where conv = decimal and rf = "\<lambda>p. None" and node = "''node''"
      and script = "''download.mjs''" and X = "''best''" and post = "[''u'']" and a = ?a2
      and ans = "''2''"] p2 n2 y2
  have c2: "chooseFormatInteractive ''2'' ?a2 = ([], ?a2)"
    and d2: "\<exists>d. ytdlpArgs ?a2 = Some d \<and> map_of d ''format'' = Some (VStr ''best'')"
    by blast+
  from prompt_bypassed [OF al(3), where conv = decimal and rf = "\<lambda>p. None" and node = "''node''"
      and script = "''download.mjs''" and post = "[]" and a = ?a3 and ans = "''2''"] p3 n3 y3
  have c3: "chooseFormatInteractive ''2'' ?a3 = ([], ?a3)"
    and d3: "\<exists>d. ytdlpArgs ?a3 = Some d \<and> map_of d ''format'' = Some (VStr DEFAULT_FORMAT_FALLBACK)"
    by blast+
  from al p1 p2 p3 c1 c2 c3 d2 d3 show ?thesis by simp
qed

section \<open>Proofs about options without a value and about configuration errors\<close>

lemma parse_loop_trailing:
  assumes "aligned pre" and "parse_loop conv pre initial_args = Inr a1"
    and "parse_case conv v [] a1 = Inr (b, [])"
  shows "parse_loop conv (pre @ [v]) initial_args = Inr b"
  using assms by (simp add: parse_loop_append)

lemma parseArgs_trailing_format:
  assumes "aligned pre" and "parseArgs conv rf (node # script # pre) = Inr a"
  shows "parseArgs conv rf (node # script # pre @ [''--format'']) =
           Inr (a\<lparr>format := Undefined, formatProvided := True\<rparr>)"
proof -
  from parseArgs_Inr [OF assms(2)] obtain a1 where
    pl: "parse_loop conv pre initial_args = Inr a1" by auto
  have pc: "parse_case conv ''--format'' [] a1 = Inr (a1\<lparr>format := Undefined, formatProvided := True\<rparr>, [])"
    by (simp add: parse_case_def)
  note pl' = parse_loop_trailing [OF assms(1) pl pc]
  from assms(2) show ?thesis
    unfolding parseArgs_def
    by (simp add: pl pl') (auto split: if_splits jsval.splits option.splits)
qed

text \<open>
  Claim C10. A value option written last, after whole options that parse, does not
  make the loop of \<open>parseArgs\<close> fail: its field becomes \<open>undefined\<close>, and NaN for
  \<open>--retries\<close> and \<open>--concurrent\<close>, since \<open>Number(undefined)\<close> is NaN. After a last
  \<open>--format\<close> the field \<open>formatProvided\<close> is set, so nothing is asked, and the stored
  format is \<open>undefined\<close>, so the option object of a job that is not audio-only carries
  the 1080p fallback selector.
\<close>

theorem trailing_value_option:
  assumes "aligned pre" and "parse_loop conv pre initial_args = Inr a1"
  shows "parse_loop conv (pre @ [''--format'']) initial_args =
           Inr (a1\<lparr>format := Undefined, formatProvided := True\<rparr>) \<and>
         parse_loop conv (pre @ [''--retries'']) initial_args = Inr (a1\<lparr>retries := NaN\<rparr>) \<and>
         parse_loop conv (pre @ [''--concurrent'']) initial_args = Inr (a1\<lparr>concurrent := NaN\<rparr>) \<and>
         parse_loop conv (pre @ [''--outDir'']) initial_args = Inr (a1\<lparr>outDir := Undefined\<rparr>) \<and>
         parse_loop conv (pre @ [''--outTemplate'']) initial_args = Inr (a1\<lparr>outTemplate := Undefined\<rparr>) \<and>
         parse_loop conv (pre @ [''--audioFormat'']) initial_args = Inr (a1\<lparr>audioFormat := Undefined\<rparr>) \<and>
         parse_loop conv (pre @ [''--rateLimit'']) initial_args = Inr (a1\<lparr>rateLimit := Undefined\<rparr>) \<and>
         parse_loop conv (pre @ [''--lang'']) initial_args = Inr (a1\<lparr>subsLang := Undefined\<rparr>) \<and>
         parse_loop conv (pre @ [''--fromFile'']) initial_args = Inr (a1\<lparr>fromFile := Undefined\<rparr>) \<and>
         parse_loop conv (pre @ [''--cookies'']) initial_args = Inr (a1\<lparr>cookies := Undefined\<rparr>) \<and>
         parse_loop conv (pre @ [''--proxy'']) initial_args = Inr (a1\<lparr>proxy := Undefined\<rparr>) \<and>
         parse_loop conv (pre @ [''--geo'']) initial_args = Inr (a1\<lparr>geoBypassCountry := Undefined\<rparr>) \<and>
         parse_loop conv (pre @ [''--extractorArgs'']) initial_args = Inr (a1\<lparr>extractorArgs := Undefined\<rparr>) \<and>
         Number_js conv Undefined = NaN \<and>
         (\<forall>a. parseArgs conv rf (node # script # pre) = Inr a \<longrightarrow>
            parseArgs conv rf (node # script # pre @ [''--format'']) =
              Inr (a\<lparr>format := Undefined, formatProvided := True\<rparr>) \<and>
            chooseFormatInteractive ans (a\<lparr>format := Undefined, formatProvided := True\<rparr>) =
              ([], a\<lparr>format := Undefined, formatProvided := True\<rparr>) \<and>
            (\<forall>d. \<not> audioOnly a \<and>
                 ytdlpArgs (a\<lparr>format := Undefined, formatProvided := True\<rparr>) = Some d \<longrightarrow>
               map_of d ''format'' = Some (VStr DEFAULT_FORMAT_FALLBACK)))"
proof -
  note tr = parse_loop_trailing [OF assms]
  have loops:
    "parse_loop conv (pre @ [''--format'']) initial_args =
           Inr (a1\<lparr>format := Undefined, formatProvided := True\<rparr>)"
    "parse_loop conv (pre @ [''--retries'']) initial_args = Inr (a1\<lparr>retries := NaN\<rparr>)"
    "parse_loop conv (pre @ [''--concurrent'']) initial_args = Inr (a1\<lparr>concurrent := NaN\<rparr>)"
    "parse_loop conv (pre @ [''--outDir'']) initial_args = Inr (a1\<lparr>outDir := Undefined\<rparr>)"
    "parse_loop conv (pre @ [''--outTemplate'']) initial_args = Inr (a1\<lparr>outTemplate := Undefined\<rparr>)"
    "parse_loop conv (pre @ [''--audioFormat'']) initial_args = Inr (a1\<lparr>audioFormat := Undefined\<rparr>)"
    "parse_loop conv (pre @ [''--rateLimit'']) initial_args = Inr (a1\<lparr>rateLimit := Undefined\<rparr>)"
    "parse_loop conv (pre @ [''--lang'']) initial_args = Inr (a1\<lparr>subsLang := Undefined\<rparr>)"
    "parse_loop conv (pre @ [''--fromFile'']) initial_args = Inr (a1\<lparr>fromFile := Undefined\<rparr>)"
    "parse_loop conv (pre @ [''--cookies'']) initial_args = Inr (a1\<lparr>cookies := Undefined\<rparr>)"
    "parse_loop conv (pre @ [''--proxy'']) initial_args = Inr (a1\<lparr>proxy := Undefined\<rparr>)"
    "parse_loop conv (pre @ [''--geo'']) initial_args = Inr (a1\<lparr>geoBypassCountry := Undefined\<rparr>)"
    "parse_loop conv (pre @ [''--extractorArgs'']) initial_args = Inr (a1\<lparr>extractorArgs := Undefined\<rparr>)"
    by (rule tr, simp add: parse_case_def Number_js_def)+
  have num: "Number_js conv Undefined = NaN" by (simp add: Number_js_def)
  have job: "parseArgs conv rf (node # script # pre @ [''--format'']) =
              Inr (a\<lparr>format := Undefined, formatProvided := True\<rparr>) \<and>
            chooseFormatInteractive ans (a\<lparr>format := Undefined, formatProvided := True\<rparr>) =
              ([], a\<lparr>format := Undefined, formatProvided := True\<rparr>) \<and>
            (\<forall>d. \<not> audioOnly a \<and>
                 ytdlpArgs (a\<lparr>format := Undefined, formatProvided := True\<rparr>) = Some d \<longrightarrow>
               map_of d ''format'' = Some (VStr DEFAULT_FORMAT_FALLBACK))"
    if p: "parseArgs conv rf (node # script # pre) = Inr a" for a
    using parseArgs_trailing_format [OF assms(1) p]
    by (auto simp: no_prompt_when ytdlp_selector(1) format_or_fallback_def)
  from loops num job show ?thesis by blast
qed

theorem trailing_value_option_witness:
  "aligned [''u''] \<and>
   parse_loop decimal [''u''] initial_args = Inr (initial_args\<lparr>urls := [''u'']\<rparr>) \<and>
   parse_loop decimal ([''u''] @ [''--format'']) initial_args =
     Inr (initial_args\<lparr>urls := [''u''], format := Undefined, formatProvided := True\<rparr>) \<and>
   parse_loop decimal ([''u''] @ [''--retries'']) initial_args =
     Inr (initial_args\<lparr>urls := [''u''], retries := NaN\<rparr>) \<and>
   parse_loop decimal ([''u''] @ [''--outDir'']) initial_args =
     Inr (initial_args\<lparr>urls := [''u''], outDir := Undefined\<rparr>) \<and>
   parseArgs decimal (\<lambda>p. None) (''node'' # ''download.mjs'' # [''u''] @ [''--format'']) =
     Inr (initial_args\<lparr>urls := [''u''], format := Undefined, formatProvided := True\<rparr>) \<and>
   chooseFormatInteractive ''3''
     (initial_args\<lparr>urls := [''u''], format := Undefined, formatProvided := True\<rparr>) =
     ([], initial_args\<lparr>urls := [''u''], format := Undefined, formatProvided := True\<rparr>) \<and>
   (\<exists>d. ytdlpArgs (initial_args\<lparr>urls := [''u''], format := Undefined, formatProvided := True\<rparr>) =
          Some d \<and>
        map_of d ''format'' = Some (VStr DEFAULT_FORMAT_FALLBACK))"
proof -
  let ?a1 = "initial_args\<lparr>urls := [''u'']\<rparr>"
  let ?a2 = "initial_args\<lparr>urls := [''u''], format := Undefined, formatProvided := True\<rparr>"
  have al: "aligned [''u'']" by (simp add: takes_value_def value_options_def)
  have pl: "parse_loop decimal [''u''] initial_args = Inr ?a1"
    by (simp add: parse_eval)
  have pa: "parseArgs decimal (\<lambda>p. None) (''node'' # ''download.mjs'' # [''u'']) = Inr ?a1"
    by (simp add: parse_eval)
  have na: "\<not> audioOnly ?a1" by (simp add: initial_args_def)
  have y: "\<exists>d. ytdlpArgs ?a2 = Some d" by (simp add: ytdlpArgs_def initial_args_def)
  note t = trailing_value_option [OF al pl, where rf = "\<lambda>p. None" and node = "''node''"
      and script = "''download.mjs''" and ans = "''3''"]
  from t have l: "parse_loop decimal ([''u''] @ [''--format'']) initial_args = Inr ?a2"
    "parse_loop decimal ([''u''] @ [''--retries'']) initial_args = Inr (?a1\<lparr>retries := NaN\<rparr>)"
    "parse_loop decimal ([''u''] @ [''--outDir'']) initial_args = Inr (?a1\<lparr>outDir := Undefined\<rparr>)"
    by blast+
  from t have "\<forall>a. parseArgs decimal (\<lambda>p. None) (''node'' # ''download.mjs'' # [''u'']) = Inr a \<longrightarrow>
            parseArgs decimal (\<lambda>p. None) (''node'' # ''download.mjs'' # [''u''] @ [''--format'']) =
              Inr (a\<lparr>format := Undefined, formatProvided := True\<rparr>) \<and>
            chooseFormatInteractive ''3'' (a\<lparr>format := Undefined, formatProvided := True\<rparr>) =
              ([], a\<lparr>format := Undefined, formatProvided := True\<rparr>) \<and>
            (\<forall>d. \<not> audioOnly a \<and>
                 ytdlpArgs (a\<lparr>format := Undefined, formatProvided := True\<rparr>) = Some d \<longrightarrow>
               map_of d ''format'' = Some (VStr DEFAULT_FORMAT_FALLBACK))"
    by blast
  from this [THEN spec, THEN mp, OF pa] have
    j1: "parseArgs decimal (\<lambda>p. None) (''node'' # ''download.mjs'' # [''u''] @ [''--format'']) = Inr ?a2"
    and j2: "chooseFormatInteractive ''3'' ?a2 = ([], ?a2)"
    and j3: "\<forall>d. \<not> audioOnly ?a1 \<and> ytdlpArgs ?a2 = Some d \<longrightarrow>
               map_of d ''format'' = Some (VStr DEFAULT_FORMAT_FALLBACK)"
    by blast+
  from j3 na y have j4: "\<exists>d. ytdlpArgs ?a2 = Some d \<and>
        map_of d ''format'' = Some (VStr DEFAULT_FORMAT_FALLBACK)" by blast
  from al pl l j1 j2 j4 show ?thesis by blast
qed

lemma parse_loop_unknown:
  assumes "aligned pre" and "startsWith_dash v" and "v \<notin> set value_options"
    and "v \<notin> set switch_options"
  shows "\<exists>m. parse_loop conv (pre @ v # post) a = Inl (ProcessExit 1 (UnknownOption m))"
proof (cases "parse_loop conv pre a")
  case (Inl x)
  with parse_loop_Inl [OF Inl] assms(1) show ?thesis by (auto simp: parse_loop_append)
next
  case (Inr a1)
  with assms(1) parse_case_unknown [OF assms(2-4), of conv post a1] show ?thesis
    by (simp add: parse_loop_append)
qed

text \<open>
  Claim C4, as amended. When an unknown option is read in option position, and when
  no locator is resolved (no positional argument and no line from a batch file), the
  process reports the error (the unknown option, or the usage text) and exits with
  status 1 before any scheduling: no job is started. The values of \<open>--retries\<close> and
  \<open>--concurrent\<close> are stored as converted, without a check.
\<close>

theorem startup_errors_exit_1:
  "(aligned pre \<and> startsWith_dash v \<and> v \<notin> set value_options \<and> v \<notin> set switch_options \<longrightarrow>
      (\<exists>m. startup e (node # script # pre @ v # post) = Inl (ProcessExit 1 (UnknownOption m))) \<and>
      run e (node # script # pre @ v # post) [] = Exited 1 [] \<and>
      (\<forall>t ts. run e (node # script # pre @ v # post) (t # ts) = NoSuchRun)) \<and>
   (parse_loop (number e) (drop 2 argv) initial_args = Inr a1 \<and>
    positionals (drop 2 argv) = [] \<and>
    (truthy (fromFile a1) \<longrightarrow>
       (\<exists>p data. fromFile a1 = Str p \<and> readFile e p = Some data \<and> batch_lines data = [])) \<longrightarrow>
      startup e argv = Inl (ProcessExit 1 Usage) \<and>
      run e argv [] = Exited 1 [] \<and>
      (\<forall>t ts. run e argv (t # ts) = NoSuchRun)) \<and>
   parse_case conv ''--retries'' (w # rest) a = Inr (a\<lparr>retries := conv w\<rparr>, rest) \<and>
   parse_case conv ''--concurrent'' (w # rest) a = Inr (a\<lparr>concurrent := conv w\<rparr>, rest)"
proof -
  have stops: "run e args [] = Exited 1 [] \<and> (\<forall>t ts. run e args (t # ts) = NoSuchRun)"
    if "startup e args = Inl (ProcessExit 1 m)" for args m
    using that by (simp add: run_def)
  have unknown:
    "(\<exists>m. startup e (node # script # pre @ v # post) = Inl (ProcessExit 1 (UnknownOption m))) \<and>
      run e (node # script # pre @ v # post) [] = Exited 1 [] \<and>
      (\<forall>t ts. run e (node # script # pre @ v # post) (t # ts) = NoSuchRun)"
    if h: "aligned pre \<and> startsWith_dash v \<and> v \<notin> set value_options \<and> v \<notin> set switch_options"
  proof -
    from h obtain m where
      "parse_loop (number e) (pre @ v # post) initial_args = Inl (ProcessExit 1 (UnknownOption m))"
      using parse_loop_unknown [of pre v "number e" post initial_args] by blast
    then have "startup e (node # script # pre @ v # post) = Inl (ProcessExit 1 (UnknownOption m))"
      by (simp add: startup_def parseArgs_def)
    with stops [OF this] show ?thesis by blast
  qed
  have no_locator:
    "startup e argv = Inl (ProcessExit 1 Usage) \<and> run e argv [] = Exited 1 [] \<and>
      (\<forall>t ts. run e argv (t # ts) = NoSuchRun)"
    if h: "parse_loop (number e) (drop 2 argv) initial_args = Inr a1 \<and>
      positionals (drop 2 argv) = [] \<and>
      (truthy (fromFile a1) \<longrightarrow>
         (\<exists>p data. fromFile a1 = Str p \<and> readFile e p = Some data \<and> batch_lines data = []))"
  proof -
    from h have pl: "parse_loop (number e) (drop 2 argv) initial_args = Inr a1" by simp
    have u: "urls a1 = []" using parse_loop_urls [OF pl] h by (simp add: initial_args_def)
    have "startup e argv = Inl (ProcessExit 1 Usage)"
      using h u unfolding startup_def parseArgs_def
      by (auto split: jsval.splits)
    with stops [OF this] show ?thesis by blast
  qed
  have stored:
    "parse_case conv ''--retries'' (w # rest) a = Inr (a\<lparr>retries := conv w\<rparr>, rest)"
    "parse_case conv ''--concurrent'' (w # rest) a = Inr (a\<lparr>concurrent := conv w\<rparr>, rest)"
    by (simp_all add: parse_case_def Number_js_def)
  from unknown no_locator stored show ?thesis by blast
qed

theorem startup_errors_exit_1_witness:
  "parse_loop (number example_env) (drop 2 [''node'', ''download.mjs'']) initial_args =
     Inr initial_args \<and>
   positionals (drop 2 [''node'', ''download.mjs'']) = [] \<and>
   \<not> truthy (fromFile initial_args) \<and>
   startup example_env [''node'', ''download.mjs''] = Inl (ProcessExit 1 Usage) \<and>
   run example_env [''node'', ''download.mjs''] [] = Exited 1 [] \<and>
   run example_env [''node'', ''download.mjs''] [Fulfil 0] = NoSuchRun \<and>
   aligned [''u''] \<and> startsWith_dash ''--bogus'' \<and>
   ''--bogus'' \<notin> set value_options \<and> ''--bogus'' \<notin> set switch_options \<and>
   startup example_env (''node'' # ''download.mjs'' # [''u''] @ ''--bogus'' # []) =
     Inl (ProcessExit 1 (UnknownOption ''--bogus'')) \<and>
   run example_env (''node'' # ''download.mjs'' # [''u''] @ ''--bogus'' # []) [] = Exited 1 [] \<and>
   run example_env (''node'' # ''download.mjs'' # [''u''] @ ''--bogus'' # []) [Fulfil 0] =
     NoSuchRun \<and>
   parse_case decimal ''--concurrent'' [''0''] initial_args =
     Inr (initial_args\<lparr>concurrent := Fin 0\<rparr>, [])"
proof -
  let ?argv = "[''node'', ''download.mjs'']"
  let ?bogus = "''node'' # ''download.mjs'' # [''u''] @ ''--bogus'' # []"
  have pl: "parse_loop (number example_env) (drop 2 ?argv) initial_args = Inr initial_args"
    "positionals (drop 2 ?argv) = []" "\<not> truthy (fromFile initial_args)"
    by (simp_all add: initial_args_def)
  have b: "aligned [''u'']" "startsWith_dash ''--bogus''"
    "''--bogus'' \<notin> set value_options" "''--bogus'' \<notin> set switch_options"
    by (simp_all add: takes_value_def value_options_def switch_options_def startsWith_dash_def)
  have d: "decimal ''0'' = Fin 0" by (simp add: decimal_def digit_val_def)
  note t = startup_errors_exit_1 [where e = example_env and argv = ?argv
      and pre = "[''u'']" and v = "''--bogus''"
      and node = "''node''" and script = "''download.mjs''" and post = "[]"
      and ?a1.0 = initial_args and conv = decimal and w = "''0''" and rest = "[]"
      and a = initial_args]
  from t pl have s: "startup example_env ?argv = Inl (ProcessExit 1 Usage)"
    "run example_env ?argv [] = Exited 1 []"
    "run example_env ?argv [Fulfil 0] = NoSuchRun" by blast+
  from t b have r: "run example_env ?bogus [] = Exited 1 []"
    "run example_env ?bogus [Fulfil 0] = NoSuchRun" by blast+
  have m: "startup example_env ?bogus = Inl (ProcessExit 1 (UnknownOption ''--bogus''))"
    by (simp add: parse_eval example_env_def)
  from t have c:
    "parse_case decimal ''--concurrent'' [''0''] initial_args =
       Inr (initial_args\<lparr>concurrent := decimal ''0''\<rparr>, [])" by blast
  from pl s b m r c show ?thesis unfolding d by blast
qed

text \<open>
  A stop before scheduling that is not an error: when the question has to be asked and
  the input ends without an answer, the process ends with status 0 and no job started.
\<close>

lemma unanswered_question_ends_run:
  assumes "parseArgs (number e) (readFile e) argv = Inr a"
    and "ensureDir (can_ensure e) (outDir a) = Inr u"
    and "\<not> noPrompt a" and "\<not> formatProvided a" and "\<not> audioOnly a"
    and "answer e = None"
  shows "startup e argv = Inl Unanswered \<and> run e argv [] = Exited 0 [] \<and>
         run e argv (t # ts) = NoSuchRun"
  using assms by (simp add: startup_def run_def)

text \<open>With a limit that is zero or negative no job is ever started and the run never ends.\<close>

lemma nonpositive_concurrency_never_exits:
  assumes "startup e argv = Inr (shown, a)" and "concurrent a = Fin c" and "c \<le> 0"
  shows "run e argv [] = Waiting \<lparr>queue = urls a, active = 0, failures = [], jobs = []\<rparr> \<and>
         run e argv (t # ts) = NoSuchRun"
proof -
  let ?s = "\<lparr>queue = urls a, active = 0, failures = [], jobs = []\<rparr>"
  from assms(1) obtain a0 line where p: "parseArgs (number e) (readFile e) argv = Inr a0"
    and c: "chooseFormatInteractive line a0 = (shown, a)"
    by (auto simp: startup_def split: sum.splits if_splits option.splits)
  have "urls a = urls a0"
    using c by (auto simp: chooseFormatInteractive_def Let_def split: if_splits)
  with parseArgs_Inr [OF p] have ne: "urls a \<noteq> []" by auto
  have fp: "first_pump (concurrent a) (urls a) = ?s"
    using assms(2,3) by (simp add: first_pump_def pump_def js_ge_def js_le_def of_count_def split: list.splits)
  have "fire (concurrent a) t ?s = None" by (cases t) simp_all
  then show ?thesis using assms(1) ne fp by (simp add: run_def drained_def)
qed

text \<open>
  Claim C4 as first stated fails: with \<open>--concurrent 0\<close>, \<open>--concurrent -1\<close>,
  \<open>--concurrent abc\<close> or \<open>--retries abc\<close> and one locator, the run does not stop with
  status 1 before scheduling. With the limit 0 it stays in its drain loop, no job
  started; with \<open>--retries abc\<close> it runs the job and can end with status 0.
\<close>

theorem numeric_values_unchecked_counterexample:
  "startup example_env [''node'', ''download.mjs'', ''--noPrompt'', ''--concurrent'', ''0'', ''u''] =
     Inr ([], initial_args\<lparr>urls := [''u''], concurrent := Fin 0, noPrompt := True\<rparr>) \<and>
   run example_env [''node'', ''download.mjs'', ''--noPrompt'', ''--concurrent'', ''0'', ''u''] [] =
     Waiting \<lparr>queue = [''u''], active = 0, failures = [], jobs = []\<rparr> \<and>
   startup example_env [''node'', ''download.mjs'', ''--noPrompt'', ''--concurrent'', ''-1'', ''u''] =
     Inr ([], initial_args\<lparr>urls := [''u''], concurrent := Fin (- 1), noPrompt := True\<rparr>) \<and>
   startup example_env [''node'', ''download.mjs'', ''--noPrompt'', ''--concurrent'', ''abc'', ''u''] =
     Inr ([], initial_args\<lparr>urls := [''u''], concurrent := NaN, noPrompt := True\<rparr>) \<and>
   startup example_env [''node'', ''download.mjs'', ''--noPrompt'', ''--retries'', ''abc'', ''u''] =
     Inr ([], initial_args\<lparr>urls := [''u''], retries := NaN, noPrompt := True\<rparr>) \<and>
   run example_env [''node'', ''download.mjs'', ''--noPrompt'', ''--retries'', ''abc'', ''u'']
     [Fulfil 0, Finally 0] =
     Exited 0 [CHR 0x0A # ''All downloads completed successfully.'']"
  by (simp add: parse_eval example_env_def run_def sched_eval drained_def report_def
      DEFAULT_CONCURRENCY_def)

section \<open>The counter under a limit that is not an integer\<close>

lemma admit_below:
  "js_lt (of_count (active s)) (Fin q) \<Longrightarrow> below_limit q (admit u r s)"
  by (simp add: below_limit_def admit_def of_count_def)

lemma pump_while_below: "below_limit q s \<Longrightarrow> below_limit q (pump_while (Fin q) s)"
proof (induction "Fin q" s rule: pump_while.induct)
  case (1 s)
  show ?case
  proof (cases "queue s")
    case Nil
    then show ?thesis using 1(2) by (simp add: pump_while.simps [of _ s])
  next
    case (Cons u r)
    show ?thesis
    proof (cases "js_lt (of_count (active s)) (Fin q)")
      case True
      from 1(1) [OF Cons True admit_below [OF True]] True Cons show ?thesis
        by (simp add: pump_while.simps [of _ s])
    next
      case False
      with 1(2) Cons show ?thesis by (simp add: pump_while.simps [of _ s])
    qed
  qed
qed

lemma pump_below: "below_limit q s \<Longrightarrow> below_limit q (pump (Fin q) s)"
proof (cases "queue s")
  case Nil
  then show "below_limit q s \<Longrightarrow> ?thesis" by (simp add: pump_def)
next
  case (Cons u r)
  assume b: "below_limit q s"
  show ?thesis
  proof (cases "js_ge (of_count (active s)) (Fin q)")
    case True
    then show ?thesis using b Cons by (simp add: pump_def)
  next
    case False
    then have "js_lt (of_count (active s)) (Fin q)"
      by (auto simp: js_ge_def js_le_def of_count_def)
    from pump_while_below [OF admit_below [OF this]] False Cons show ?thesis
      by (simp add: pump_def)
  qed
qed

lemma fire_below:
  assumes "below_limit q s" and "fire (Fin q) t s = Some s'"
  shows "below_limit q s'"
proof (cases t)
  case (Finally i)
  with assms(2) obtain ok where
    s': "s' = pump (Fin q) (set_phase i (Done ok) (s\<lparr>active := active s - 1\<rparr>))"
    by (auto split: if_splits phase.splits)
  have "below_limit q (set_phase i (Done ok) (s\<lparr>active := active s - 1\<rparr>))"
    using assms(1) by (auto simp: below_limit_def set_phase_fields)
  then show ?thesis unfolding s' by (rule pump_below)
qed (use assms in \<open>auto simp: below_limit_def set_phase_fields split: if_splits\<close>)

text \<open>
  Under any finite limit \<open>q\<close> the counter stays below \<open>q + 1\<close>: a job is admitted
  only while the counter is below \<open>q\<close>. For an integer limit this is the bound of C1.
\<close>

lemma active_below_finite_limit:
  assumes "exec (Fin q) ts (first_pump (Fin q) us) = Some s"
  shows "active s \<le> 0 \<or> of_int (active s) < q + 1"
proof -
  have "below_limit q s'" if "below_limit q s0" "exec (Fin q) ts s0 = Some s'" for s0 s'
    using that by (induction ts arbitrary: s0) (auto split: option.splits dest: fire_below)
  moreover have "below_limit q (first_pump (Fin q) us)"
    unfolding first_pump_def by (rule pump_below) (simp add: below_limit_def)
  ultimately show ?thesis using assms unfolding below_limit_def by blast
qed

end
